theory Spec2Isabelle
  imports Complex_Main "HOL-Library.Word"
begin

section \<open>EANBQH: exact area image upsizing with natural biquadratic histosplines\<close>

text \<open>
  A shallow embedding of the upsampler of \<^verbatim>\<open>eanbqh.c\<close> (16-bit samples),
  \<^verbatim>\<open>eanbqh8.c\<close> (8-bit samples) and the shared \<^verbatim>\<open>eanbqh.h\<close>.
\<close>

subsection \<open>C \<^verbatim>\<open>int\<close> arithmetic\<close>

text \<open>
  The indices and running products of the source are C \<^verbatim>\<open>int\<close>s (32 bits). Signed
  overflow is undefined behaviour in C; the model computes on \<^typ>\<open>int\<close> and returns
  \<open>None\<close> as soon as a result leaves the range of \<^verbatim>\<open>int\<close>. An array is a list,
  a pointer into it is its offset from the start of the array; a store or a read outside
  the array is undefined as well, and is \<open>None\<close> too.
\<close>

definition INT_MAX :: int where
  "INT_MAX = 2147483647"

definition INT_MIN :: int where
  "INT_MIN = - 2147483648"

definition int_add :: "int \<Rightarrow> int \<Rightarrow> int option" where
  "int_add a b = (if INT_MIN \<le> a + b \<and> a + b \<le> INT_MAX then Some (a + b) else None)"

definition store :: "'x list \<Rightarrow> int \<Rightarrow> 'x \<Rightarrow> 'x list option" where
  "store arr k v = (if 0 \<le> k \<and> nat k < length arr then Some (arr[nat k := v]) else None)"

definition deref :: "'x list \<Rightarrow> int \<Rightarrow> 'x option" where
  "deref arr k = (if 0 \<le> k \<and> nat k < length arr then Some (arr ! nat k) else None)"

subsection \<open>OverlapMapper: \<^verbatim>\<open>last_overlapping_index\<close>\<close>

text \<open>
  The source's parameters \<^verbatim>\<open>o\<close> (coarse count) and \<^verbatim>\<open>oo\<close> (fine count) are
  written \<open>oc\<close> and \<open>oo\<close>. The inner loop
  \<^verbatim>\<open>while (kk_plus_one_times_o < k_plus_one_times_oo) { kk++; kk_plus_one_times_o += o; }\<close>
  returns the final \<open>kk\<close> and \<open>kk_plus_one_times_o\<close>.
\<close>

function inner_while :: "int \<Rightarrow> int \<Rightarrow> int \<Rightarrow> int \<Rightarrow> (int \<times> int) option" where
  "inner_while oc k_plus_one_times_oo kk kk_plus_one_times_o =
     (if kk_plus_one_times_o < k_plus_one_times_oo then
        (case int_add kk 1 of
           None \<Rightarrow> None
         | Some kk' \<Rightarrow>
             (case int_add kk_plus_one_times_o oc of
                None \<Rightarrow> None
              | Some kkpo' \<Rightarrow> inner_while oc k_plus_one_times_oo kk' kkpo'))
      else Some (kk, kk_plus_one_times_o))"
  by pat_completeness auto
termination
  by (relation "measure (\<lambda>(oc, b, kk, kkpo). nat (INT_MAX - kk))")
     (auto simp: int_add_def split: if_splits)

text \<open>
  The \<^verbatim>\<open>do { ... } while (k<o_minus_1)\<close> loop of the branch \<^verbatim>\<open>oo>o\<close>. The body runs
  before the test, as in the source.
\<close>

function upsize_loop ::
  "int \<Rightarrow> int \<Rightarrow> int \<Rightarrow> int \<Rightarrow> int \<Rightarrow> int \<Rightarrow> int \<Rightarrow> int list \<Rightarrow> int list option" where
  "upsize_loop oc oo o_minus_1 k k_plus_one_times_oo kk kk_plus_one_times_o arr =
     (case int_add kk 1 of
        None \<Rightarrow> None
      | Some kk1 \<Rightarrow>
     (case int_add kk_plus_one_times_o oc of
        None \<Rightarrow> None
      | Some kkpo1 \<Rightarrow>
     (case inner_while oc k_plus_one_times_oo kk1 kkpo1 of
        None \<Rightarrow> None
      | Some (kk2, kkpo2) \<Rightarrow>
     (case store arr k kk2 of
        None \<Rightarrow> None
      | Some arr' \<Rightarrow>
     (case int_add k 1 of
        None \<Rightarrow> None
      | Some k' \<Rightarrow>
     (case int_add k_plus_one_times_oo oo of
        None \<Rightarrow> None
      | Some kpoo' \<Rightarrow>
          if k' < o_minus_1
          then upsize_loop oc oo o_minus_1 k' kpoo' kk2 kkpo2 arr'
          else Some arr'))))))"
  by pat_completeness auto
termination
  by (relation "measure (\<lambda>(oc, oo, o_minus_1, k, r). nat (o_minus_1 - k))")
     (auto simp: int_add_def split: if_splits)

text \<open>The \<^verbatim>\<open>do { last_overlapping_kk[k] = k; k++; } while (k<o_minus_1)\<close> loop of the
  \<^verbatim>\<open>else\<close> branch.\<close>

function same_size_loop :: "int \<Rightarrow> int \<Rightarrow> int list \<Rightarrow> int list option" where
  "same_size_loop o_minus_1 k arr =
     (case store arr k k of
        None \<Rightarrow> None
      | Some arr' \<Rightarrow>
     (case int_add k 1 of
        None \<Rightarrow> None
      | Some k' \<Rightarrow>
          if k' < o_minus_1 then same_size_loop o_minus_1 k' arr' else Some arr'))"
  by pat_completeness auto
termination
  by (relation "measure (\<lambda>(o_minus_1, k, arr). nat (o_minus_1 - k))")
     (auto simp: int_add_def split: if_splits)

declare inner_while.simps [simp del] upsize_loop.simps [simp del] same_size_loop.simps [simp del]

text \<open>
  The function itself. The third argument is the caller's array
  \<^verbatim>\<open>last_overlapping_kk[]\<close>, the result is the array after the call.
\<close>

definition last_overlapping_index :: "int \<Rightarrow> int \<Rightarrow> int list \<Rightarrow> int list option" where
  "last_overlapping_index oc oo last_overlapping_kk =
     (case int_add oc (- 1) of
        None \<Rightarrow> None
      | Some o_minus_1 \<Rightarrow>
          if oo > oc
          then upsize_loop oc oo o_minus_1 0 oo 0 oc last_overlapping_kk
          else same_size_loop o_minus_1 0 last_overlapping_kk)"

text \<open>
  A proof device: \<open>is_last oc oo k j\<close> says that fine cell \<open>j\<close> is the last one that
  starts before the right end of coarse cell \<open>k\<close>.
\<close>

definition is_last :: "int \<Rightarrow> int \<Rightarrow> int \<Rightarrow> int \<Rightarrow> bool" where
  "is_last oc oo k j = (j * oc < (k + 1) * oo \<and> (k + 1) * oo \<le> (j + 1) * oc)"

subsection \<open>Rounding and clamping of an output sample\<close>

text \<open>
  \<^verbatim>\<open>#define ROUND_AND_CLAMP_TO_065535(x) ({ int out = .5 + (x);
    (out > 65535) ? (pixval)65535 : ((out < 0) ? (pixval)0 : (pixval)out); })\<close>
  in \<^verbatim>\<open>eanbqh.c\<close>; \<^verbatim>\<open>eanbqh8.c\<close> has the same macro with 255 in place of 65535 and
  stores the result in an \<^verbatim>\<open>unsigned char\<close>. The argument is the value of the tensor
  contraction, a \<^verbatim>\<open>float\<close> expression; it is modelled by the real number it denotes, and
  the sum \<^verbatim>\<open>.5 + (x)\<close> by the exact sum. The initialisation of the \<^verbatim>\<open>int\<close> truncates
  towards zero and is undefined (\<open>None\<close>) when the truncated value is not an \<^verbatim>\<open>int\<close>.
\<close>

definition c_trunc :: "real \<Rightarrow> int" where
  "c_trunc s = (if 0 \<le> s then \<lfloor>s\<rfloor> else \<lceil>s\<rceil>)"

definition double_to_int :: "real \<Rightarrow> int option" where
  "double_to_int s =
     (if INT_MIN \<le> c_trunc s \<and> c_trunc s \<le> INT_MAX then Some (c_trunc s) else None)"

type_synonym pixval = "16 word"
type_synonym uchar = "8 word"

definition ROUND_AND_CLAMP_TO_065535 :: "real \<Rightarrow> pixval option" where
  "ROUND_AND_CLAMP_TO_065535 x =
     (case double_to_int (1 / 2 + x) of
        None \<Rightarrow> None
      | Some out \<Rightarrow>
          Some (if out > 65535 then 65535 else if out < 0 then 0 else word_of_int out))"

definition ROUND_AND_CLAMP_TO_065535_8 :: "real \<Rightarrow> uchar option" where
  "ROUND_AND_CLAMP_TO_065535_8 x =
     (case double_to_int (1 / 2 + x) of
        None \<Rightarrow> None
      | Some out \<Rightarrow>
          Some (word_of_int (if out > 255 then 255 else if out < 0 then 0 else out)))"

text \<open>
  \<^verbatim>\<open>scale_up\<close> never reads its parameter \<^verbatim>\<open>maxval\<close>. Its only caller, \<^verbatim>\<open>main\<close>,
  leaves through \<^verbatim>\<open>usage\<close> (which exits) unless the header passes these checks:
  \<^verbatim>\<open>if (n < 15 || m < 15)\<close> and \<^verbatim>\<open>if (maxval != 65535)\<close> (\<^verbatim>\<open>if (maxval != 255)\<close> in
  \<^verbatim>\<open>eanbqh8.c\<close>).
\<close>

definition main_accepts :: "int \<Rightarrow> int \<Rightarrow> int \<Rightarrow> bool" where
  "main_accepts n m maxval = (\<not> (n < 15 \<or> m < 15) \<and> \<not> maxval \<noteq> 65535)"

definition main_accepts_8 :: "int \<Rightarrow> int \<Rightarrow> int \<Rightarrow> bool" where
  "main_accepts_8 n m maxval = (\<not> (n < 15 \<or> m < 15) \<and> \<not> maxval \<noteq> 255)"

text \<open>
  The spec's words for the same step, to compare the macro with: the value plus 0.5,
  truncated to an integer (the fractional part dropped, towards zero), clamped to
  \<open>[0, maxval]\<close>.
\<close>

definition spec_round_and_clamp :: "int \<Rightarrow> real \<Rightarrow> int" where
  "spec_round_and_clamp maxval x =
     (let s = x + 0.5; t = (if s < 0 then - \<lfloor>- s\<rfloor> else \<lfloor>s\<rfloor>)
      in max 0 (min maxval t))"

subsection \<open>ControlCoefficientSolver: the two banded eliminations\<close>

text \<open>\<^verbatim>\<open>int channels = 3;\<close>\<close>

definition channels :: nat where
  "channels = 3"

text \<open>
  The multipliers \<^verbatim>\<open>#define C0 .2000000f\<close> \<dots> \<^verbatim>\<open>#define CINFTY .2679492f\<close> of
  \<^verbatim>\<open>scale_up\<close>, by name, and the decimal each literal is written with.
\<close>

datatype lu_const = C0 | C1 | C2 | C3 | C4 | C5 | CLAST | CINFTY

fun lu_value :: "lu_const \<Rightarrow> real" where
  "lu_value C0 = 0.2000000"
| "lu_value C1 = 0.2631579"
| "lu_value C2 = 0.2676056"
| "lu_value C3 = 0.2679245"
| "lu_value C4 = 0.2679474"
| "lu_value C5 = 0.2679491"
| "lu_value CLAST = 0.2113249"
| "lu_value CINFTY = 0.2679492"

text \<open>
  What the machine does with numbers that are not \<^verbatim>\<open>float\<close>s: \<open>of_int_f\<close> is the
  conversion of an integer to \<^verbatim>\<open>float\<close>, \<open>of_lit\<close> the value of a literal with suffix
  \<^verbatim>\<open>f\<close>. Both are parameters of the model, like the arithmetic of \<open>'f\<close>.
\<close>

record 'f float_ops =
  of_int_f :: "int \<Rightarrow> 'f"
  of_lit :: "real \<Rightarrow> 'f"

text \<open>
  \<^verbatim>\<open>val = ((val & 0x00ff)<<8)|((val & 0xff00)>>8);\<close> on a \<^verbatim>\<open>pixval\<close>: the samples of a
  PPM file are big endian.
\<close>

definition byte_swap :: "pixval \<Rightarrow> pixval" where
  "byte_swap val = or (push_bit 8 (and val 0x00ff)) (drop_bit 8 (and val 0xff00))"

text \<open>
  The counting loops \<^verbatim>\<open>c = N; do { body } while (--c);\<close> and
  \<^verbatim>\<open>c = N; while (c--) { body }\<close>.
\<close>

function do_while_dec :: "int \<Rightarrow> ('s \<Rightarrow> 's option) \<Rightarrow> 's \<Rightarrow> 's option" where
  "do_while_dec c body s =
     (case body s of
        None \<Rightarrow> None
      | Some s' \<Rightarrow>
          (case int_add c (- 1) of
             None \<Rightarrow> None
           | Some c' \<Rightarrow> if c' \<noteq> 0 then do_while_dec c' body s' else Some s'))"
  by pat_completeness auto
termination
  by (relation "measure (\<lambda>(c, body, s). nat (c - INT_MIN))")
     (auto simp: int_add_def split: if_splits)

function while_dec :: "int \<Rightarrow> ('s \<Rightarrow> 's option) \<Rightarrow> 's \<Rightarrow> 's option" where
  "while_dec c body s =
     (if c \<noteq> 0 then
        (case int_add c (- 1) of
           None \<Rightarrow> None
         | Some c' \<Rightarrow>
             (case body s of
                None \<Rightarrow> None
              | Some s' \<Rightarrow> while_dec c' body s'))
      else Some s)"
  by pat_completeness auto
termination
  by (relation "measure (\<lambda>(c, body, s). nat (c - INT_MIN))")
     (auto simp: int_add_def split: if_splits)

declare do_while_dec.simps [simp del] while_dec.simps [simp del]

text \<open>
  The state of a pass: the grid \<^verbatim>\<open>a\<close>, the pointers \<^verbatim>\<open>a1\<close> and \<^verbatim>\<open>a2\<close> into it, and
  \<^verbatim>\<open>input_row_p\<close> into \<^verbatim>\<open>input_row\<close>. The statements of the pass along a row
  (\<^verbatim>\<open>eanbqh.c\<close> lines 595--704), with \<open>r\<close> for \<^verbatim>\<open>mm_nn_over_m_n\<close>:

  \<^verbatim>\<open>val = *input_row_p++; val = ...; *a1++ = val * mm_nn_over_m_n;\<close>

  \<^verbatim>\<open>val = *input_row_p++; val = ...; *a1++ = val * mm_nn_over_m_n - *a2++ * K;\<close>

  \<^verbatim>\<open>*a1-- *= CLAST;\<close>

  \<^verbatim>\<open>*a1 = ( *a1 - *a2-- ) * K; --a1;\<close>
\<close>

type_synonym 'f pass_state = "'f list \<times> int \<times> int \<times> int"

definition first_entry ::
  "'f::{minus,times} float_ops \<Rightarrow> 'f \<Rightarrow> pixval list \<Rightarrow> 'f pass_state \<Rightarrow> 'f pass_state option" where
  "first_entry F r input_row = (\<lambda>(a, a1, a2, input_row_p).
     (case deref input_row input_row_p of None \<Rightarrow> None | Some val \<Rightarrow>
     (case store a a1 (of_int_f F (uint (byte_swap val)) * r) of None \<Rightarrow> None | Some a' \<Rightarrow>
        Some (a', a1 + 1, a2, input_row_p + 1))))"

definition forward_entry ::
  "'f::{minus,times} float_ops \<Rightarrow> 'f \<Rightarrow> pixval list \<Rightarrow> lu_const \<Rightarrow>
   'f pass_state \<Rightarrow> 'f pass_state option" where
  "forward_entry F r input_row K = (\<lambda>(a, a1, a2, input_row_p).
     (case deref input_row input_row_p of None \<Rightarrow> None | Some val \<Rightarrow>
     (case deref a a2 of None \<Rightarrow> None | Some x \<Rightarrow>
     (case store a a1 (of_int_f F (uint (byte_swap val)) * r - x * of_lit F (lu_value K)) of
        None \<Rightarrow> None
      | Some a' \<Rightarrow> Some (a', a1 + 1, a2 + 1, input_row_p + 1)))))"

definition last_entry ::
  "'f::{minus,times} float_ops \<Rightarrow> 'f pass_state \<Rightarrow> 'f pass_state option" where
  "last_entry F = (\<lambda>(a, a1, a2, input_row_p).
     (case deref a a1 of None \<Rightarrow> None | Some x \<Rightarrow>
     (case store a a1 (x * of_lit F (lu_value CLAST)) of None \<Rightarrow> None | Some a' \<Rightarrow>
        Some (a', a1 - 1, a2, input_row_p))))"

definition back_entry ::
  "'f::{minus,times} float_ops \<Rightarrow> lu_const \<Rightarrow> 'f pass_state \<Rightarrow> 'f pass_state option" where
  "back_entry F K = (\<lambda>(a, a1, a2, input_row_p).
     (case deref a a1 of None \<Rightarrow> None | Some x \<Rightarrow>
     (case deref a a2 of None \<Rightarrow> None | Some y \<Rightarrow>
     (case store a a1 ((x - y) * of_lit F (lu_value K)) of None \<Rightarrow> None | Some a' \<Rightarrow>
        Some (a', a1 - 1, a2 - 1, input_row_p)))))"

text \<open>
  \<^verbatim>\<open>eanbqh.c\<close> lines 589--652, ``column forward substitution'' in the source's comments:
  the pass along row \<^verbatim>\<open>i\<close>, entered with \<^verbatim>\<open>a1 = a2 = a+i*n_times_channels\<close> and
  \<^verbatim>\<open>input_row_p = input_row\<close>.
\<close>

definition row_forward_substitution ::
  "'f::{minus,times} float_ops \<Rightarrow> 'f \<Rightarrow> pixval list \<Rightarrow> int \<Rightarrow>
   'f pass_state \<Rightarrow> 'f pass_state option" where
  "row_forward_substitution F r input_row n_minus_7_times_channels s =
     Option.bind (do_while_dec (int channels) (first_entry F r input_row) s) (\<lambda>s.
     Option.bind (do_while_dec (int channels) (forward_entry F r input_row C0) s) (\<lambda>s.
     Option.bind (do_while_dec (int channels) (forward_entry F r input_row C1) s) (\<lambda>s.
     Option.bind (do_while_dec (int channels) (forward_entry F r input_row C2) s) (\<lambda>s.
     Option.bind (do_while_dec (int channels) (forward_entry F r input_row C3) s) (\<lambda>s.
     Option.bind (do_while_dec (int channels) (forward_entry F r input_row C4) s) (\<lambda>s.
     Option.bind (do_while_dec (int channels) (forward_entry F r input_row C5) s) (\<lambda>s.
     while_dec n_minus_7_times_channels (forward_entry F r input_row CINFTY) s)))))))"

text \<open>\<^verbatim>\<open>eanbqh.c\<close> lines 657--704, ``column-based back substitution''.\<close>

definition row_back_substitution ::
  "'f::{minus,times} float_ops \<Rightarrow> int \<Rightarrow> 'f pass_state \<Rightarrow> 'f pass_state option" where
  "row_back_substitution F n_minus_7_times_channels = (\<lambda>(a, a1, a2, input_row_p).
     Option.bind (do_while_dec (int channels) (last_entry F) (a, a1 - 1, a2, input_row_p))
       (\<lambda>(a, a1, a2, input_row_p).
     Option.bind (while_dec n_minus_7_times_channels (back_entry F CINFTY)
                    (a, a1, a2 + (int channels - 1), input_row_p)) (\<lambda>s.
     Option.bind (do_while_dec (int channels) (back_entry F C5) s) (\<lambda>s.
     Option.bind (do_while_dec (int channels) (back_entry F C4) s) (\<lambda>s.
     Option.bind (do_while_dec (int channels) (back_entry F C3) s) (\<lambda>s.
     Option.bind (do_while_dec (int channels) (back_entry F C2) s) (\<lambda>s.
     Option.bind (do_while_dec (int channels) (back_entry F C1) s) (\<lambda>s.
     do_while_dec (int channels) (back_entry F C0) s))))))))"

text \<open>
  The statements of the pass down the columns (lines 710--820):
  \<^verbatim>\<open>*a1++ -= *a2++ * K;\<close>, \<^verbatim>\<open>*a1++ *= CLAST;\<close> and
  \<^verbatim>\<open>*a1 = ( *a1 - *a2++ ) * K; ++a1;\<close>. The pass does not use \<^verbatim>\<open>input_row_p\<close>.
\<close>

definition col_forward_entry ::
  "'f::{minus,times} float_ops \<Rightarrow> lu_const \<Rightarrow> 'f pass_state \<Rightarrow> 'f pass_state option" where
  "col_forward_entry F K = (\<lambda>(a, a1, a2, input_row_p).
     (case deref a a1 of None \<Rightarrow> None | Some x \<Rightarrow>
     (case deref a a2 of None \<Rightarrow> None | Some y \<Rightarrow>
     (case store a a1 (x - y * of_lit F (lu_value K)) of None \<Rightarrow> None | Some a' \<Rightarrow>
        Some (a', a1 + 1, a2 + 1, input_row_p)))))"

definition col_last_entry ::
  "'f::{minus,times} float_ops \<Rightarrow> 'f pass_state \<Rightarrow> 'f pass_state option" where
  "col_last_entry F = (\<lambda>(a, a1, a2, input_row_p).
     (case deref a a1 of None \<Rightarrow> None | Some x \<Rightarrow>
     (case store a a1 (x * of_lit F (lu_value CLAST)) of None \<Rightarrow> None | Some a' \<Rightarrow>
        Some (a', a1 + 1, a2, input_row_p))))"

definition col_back_entry ::
  "'f::{minus,times} float_ops \<Rightarrow> lu_const \<Rightarrow> 'f pass_state \<Rightarrow> 'f pass_state option" where
  "col_back_entry F K = (\<lambda>(a, a1, a2, input_row_p).
     (case deref a a1 of None \<Rightarrow> None | Some x \<Rightarrow>
     (case deref a a2 of None \<Rightarrow> None | Some y \<Rightarrow>
     (case store a a1 ((x - y) * of_lit F (lu_value K)) of None \<Rightarrow> None | Some a' \<Rightarrow>
        Some (a', a1 + 1, a2 + 1, input_row_p)))))"

text \<open>
  \<^verbatim>\<open>while (i < m) { c = n_times_channels; do { *a1++ -= *a2++ * CINFTY; } while (--c); i++; }\<close>
  returns the state and \<^verbatim>\<open>i\<close>.
\<close>

function col_forward_rows ::
  "'f::{minus,times} float_ops \<Rightarrow> int \<Rightarrow> int \<Rightarrow> int \<Rightarrow> 'f pass_state \<Rightarrow>
   ('f pass_state \<times> int) option" where
  "col_forward_rows F m n_times_channels i s =
     (if i < m then
        (case do_while_dec n_times_channels (col_forward_entry F CINFTY) s of
           None \<Rightarrow> None
         | Some s' \<Rightarrow>
             (case int_add i 1 of
                None \<Rightarrow> None
              | Some i' \<Rightarrow> col_forward_rows F m n_times_channels i' s'))
      else Some (s, i))"
  by pat_completeness auto
termination
  by (relation "measure (\<lambda>(F, m, ntc, i, s). nat (m - i))")
     (auto simp: int_add_def split: if_splits)

text \<open>
  \<^verbatim>\<open>while (i > 5) { c = n_times_channels; do { *a1 = ( *a1 - *a2++ ) * CINFTY; ++a1; }
  while (--c); a1 -= n_times_channels_times_2; a2 -= n_times_channels_times_2; i--; }\<close>
\<close>

function col_back_rows ::
  "'f::{minus,times} float_ops \<Rightarrow> int \<Rightarrow> int \<Rightarrow> int \<Rightarrow> 'f pass_state \<Rightarrow>
   ('f pass_state \<times> int) option" where
  "col_back_rows F n_times_channels n_times_channels_times_2 i s =
     (if i > 5 then
        (case do_while_dec n_times_channels (col_back_entry F CINFTY) s of
           None \<Rightarrow> None
         | Some (a, a1, a2, input_row_p) \<Rightarrow>
             (case int_add i (- 1) of
                None \<Rightarrow> None
              | Some i' \<Rightarrow>
                  col_back_rows F n_times_channels n_times_channels_times_2 i'
                    (a, a1 - n_times_channels_times_2, a2 - n_times_channels_times_2,
                     input_row_p)))
      else Some (s, i))"
  by pat_completeness auto
termination
  by (relation "measure (\<lambda>(F, ntc, ntc2, i, s). nat (i - INT_MIN))")
     (auto simp: int_add_def split: if_splits)

declare col_forward_rows.simps [simp del] col_back_rows.simps [simp del]

text \<open>
  Lines 710--750, ``row based forward substitution'', entered with
  \<^verbatim>\<open>a1 = (a+n_times_channels); a2 = a;\<close>. The result carries \<^verbatim>\<open>i\<close>, which the back
  substitution goes on with.
\<close>

definition column_forward_substitution ::
  "'f::{minus,times} float_ops \<Rightarrow> int \<Rightarrow> int \<Rightarrow> 'f list \<Rightarrow> ('f pass_state \<times> int) option" where
  "column_forward_substitution F m n_times_channels a =
     Option.bind (do_while_dec n_times_channels (col_forward_entry F C0)
                    (a, n_times_channels, 0, 0)) (\<lambda>s.
     Option.bind (do_while_dec n_times_channels (col_forward_entry F C1) s) (\<lambda>s.
     Option.bind (do_while_dec n_times_channels (col_forward_entry F C2) s) (\<lambda>s.
     Option.bind (do_while_dec n_times_channels (col_forward_entry F C3) s) (\<lambda>s.
     Option.bind (do_while_dec n_times_channels (col_forward_entry F C4) s) (\<lambda>s.
     Option.bind (do_while_dec n_times_channels (col_forward_entry F C5) s) (\<lambda>s.
     col_forward_rows F m n_times_channels 7 s))))))"

text \<open>Lines 755--820, ``row-based back substitution''.\<close>

definition shift_back :: "int \<Rightarrow> 'f pass_state \<Rightarrow> 'f pass_state" where
  "shift_back n_times_channels_times_2 = (\<lambda>(a, a1, a2, input_row_p).
     (a, a1 - n_times_channels_times_2, a2 - n_times_channels_times_2, input_row_p))"

definition column_back_substitution ::
  "'f::{minus,times} float_ops \<Rightarrow> int \<Rightarrow> int \<Rightarrow> ('f pass_state \<times> int) \<Rightarrow>
   'f pass_state option" where
  "column_back_substitution F n_times_channels n_times_channels_times_2 =
     (\<lambda>((a, a1, a2, input_row_p), i).
     Option.bind (int_add i (- 1)) (\<lambda>i.
     Option.bind (do_while_dec n_times_channels (col_last_entry F)
                    (a, a1 - n_times_channels, a2, input_row_p)) (\<lambda>(a, a1, a2, input_row_p).
     Option.bind (int_add i (- 1)) (\<lambda>i.
     Option.bind (col_back_rows F n_times_channels n_times_channels_times_2 i
                    (a, a1 - n_times_channels_times_2, a2, input_row_p)) (\<lambda>(s, i).
     Option.bind (do_while_dec n_times_channels (col_back_entry F C5) s) (\<lambda>s.
     Option.bind (do_while_dec n_times_channels (col_back_entry F C4)
                    (shift_back n_times_channels_times_2 s)) (\<lambda>s.
     Option.bind (do_while_dec n_times_channels (col_back_entry F C3)
                    (shift_back n_times_channels_times_2 s)) (\<lambda>s.
     Option.bind (do_while_dec n_times_channels (col_back_entry F C2)
                    (shift_back n_times_channels_times_2 s)) (\<lambda>s.
     Option.bind (do_while_dec n_times_channels (col_back_entry F C1)
                    (shift_back n_times_channels_times_2 s)) (\<lambda>s.
     do_while_dec n_times_channels (col_back_entry F C0)
       (shift_back n_times_channels_times_2 s)))))))))))"

text \<open>
  The multipliers as the specification words them, by the index of the sample in its row
  or column: the first sample is left as it is, the next six take \<open>C0\<close> \<dots> \<open>C5\<close>, every
  later one \<open>CINFTY\<close>; on the way back the last sample is multiplied by \<open>CLAST\<close>, and
  sample \<open>k\<close> before it takes \<open>C0\<close> \<dots> \<open>C5\<close> for \<open>k \<le> 5\<close> and \<open>CINFTY\<close> above.
\<close>

definition spec_forward_multiplier :: "nat \<Rightarrow> lu_const" where
  "spec_forward_multiplier k =
     (if k = 1 then C0 else if k = 2 then C1 else if k = 3 then C2 else if k = 4 then C3
      else if k = 5 then C4 else if k = 6 then C5 else CINFTY)"

definition spec_back_multiplier :: "nat \<Rightarrow> lu_const" where
  "spec_back_multiplier k =
     (if k = 0 then C0 else if k = 1 then C1 else if k = 2 then C2 else if k = 3 then C3
      else if k = 4 then C4 else if k = 5 then C5 else CINFTY)"

subsection \<open>Invariants of the elimination passes\<close>

text \<open>
  Proof devices for the two passes. \<open>fwd_ok src d K base t a0 a\<close>: the first \<open>t\<close> entries
  of the segment of \<open>a\<close> starting at \<open>base\<close> hold the forward substitution of \<open>src\<close>
  with stride \<open>d\<close> and multipliers \<open>K\<close>, everything else is as in \<open>a0\<close>.
  \<open>back_ok d K L base N dn af a\<close>: the entries marked by \<open>dn\<close> hold the back substitution
  of \<open>af\<close>, the others are as in \<open>af\<close>. The remaining predicates tie these to the
  pointers of a pass state.
\<close>

definition fwd_ok ::
  "(nat \<Rightarrow> 'f::{minus,times}) \<Rightarrow> nat \<Rightarrow> (nat \<Rightarrow> 'f) \<Rightarrow> nat \<Rightarrow> nat \<Rightarrow> 'f list \<Rightarrow> 'f list \<Rightarrow> bool" where
  "fwd_ok src d K base t a0 a =
     (length a = length a0 \<and>
      (\<forall>q < length a. q < base \<or> base + t \<le> q \<longrightarrow> a ! q = a0 ! q) \<and>
      (\<forall>p < t. a ! (base + p) =
          (if p < d then src p else src p - a ! (base + p - d) * K (p div d))))"

definition row_src :: "'f::{minus,times} float_ops \<Rightarrow> 'f \<Rightarrow> pixval list \<Rightarrow> nat \<Rightarrow> 'f" where
  "row_src F r input_row p = of_int_f F (uint (byte_swap (input_row ! p))) * r"

definition fwd_K :: "'f float_ops \<Rightarrow> nat \<Rightarrow> 'f" where
  "fwd_K F k = of_lit F (lu_value (spec_forward_multiplier k))"

definition row_fwd_st ::
  "'f::{minus,times} float_ops \<Rightarrow> 'f \<Rightarrow> pixval list \<Rightarrow> nat \<Rightarrow> 'f list \<Rightarrow> nat \<Rightarrow> 'f pass_state \<Rightarrow> bool" where
  "row_fwd_st F r input_row base a0 t = (\<lambda>(a, p1, p2, ip).
     fwd_ok (row_src F r input_row) channels (fwd_K F) base t a0 a \<and>
     p1 = int base + int t \<and> p2 = int base + int (t - channels) \<and> ip = int t)"

definition back_ok ::
  "nat \<Rightarrow> (nat \<Rightarrow> 'f::{minus,times}) \<Rightarrow> 'f \<Rightarrow> nat \<Rightarrow> nat \<Rightarrow> (nat \<Rightarrow> bool) \<Rightarrow> 'f list \<Rightarrow> 'f list \<Rightarrow> bool" where
  "back_ok d K L base N dn af a =
     (length a = length af \<and>
      (\<forall>q < length a. q < base \<or> base + N \<le> q \<longrightarrow> a ! q = af ! q) \<and>
      (\<forall>p < N. \<not> dn p \<longrightarrow> a ! (base + p) = af ! (base + p)) \<and>
      (\<forall>p < N. dn p \<longrightarrow> a ! (base + p) =
          (if N \<le> p + d then af ! (base + p) * L
           else (af ! (base + p) - a ! (base + p + d)) * K (p div d))) \<and>
      (\<forall>p. dn p \<longrightarrow> p + d < N \<longrightarrow> dn (p + d)))"

definition back_K :: "'f float_ops \<Rightarrow> nat \<Rightarrow> 'f" where
  "back_K F k = of_lit F (lu_value (spec_back_multiplier k))"

definition row_back_ok :: "'f::{minus,times} float_ops \<Rightarrow> nat \<Rightarrow> nat \<Rightarrow> nat \<Rightarrow> 'f list \<Rightarrow> 'f list \<Rightarrow> bool" where
  "row_back_ok F base N t af a =
     back_ok channels (back_K F) (of_lit F (lu_value CLAST)) base N (\<lambda>p. N \<le> p + t) af a"

definition row_last_st :: "'f::{minus,times} float_ops \<Rightarrow> nat \<Rightarrow> nat \<Rightarrow> 'f list \<Rightarrow> nat \<Rightarrow> 'f pass_state \<Rightarrow> bool" where
  "row_last_st F base N af t = (\<lambda>(a, p1, p2, ip).
     row_back_ok F base N t af a \<and> int base + int N = p1 + 1 + int t \<and>
     p2 = int base + int N - int channels \<and> ip = int N)"

definition row_back_st :: "'f::{minus,times} float_ops \<Rightarrow> nat \<Rightarrow> nat \<Rightarrow> 'f list \<Rightarrow> nat \<Rightarrow> 'f pass_state \<Rightarrow> bool" where
  "row_back_st F base N af t = (\<lambda>(a, p1, p2, ip).
     row_back_ok F base N t af a \<and> int base + int N = p1 + 1 + int t \<and>
     p2 = p1 + int channels \<and> ip = int N)"

definition col_fwd_st :: "'f::{minus,times} float_ops \<Rightarrow> nat \<Rightarrow> 'f list \<Rightarrow> nat \<Rightarrow> 'f pass_state \<Rightarrow> bool" where
  "col_fwd_st F d a0 t = (\<lambda>(a, p1, p2, ip).
     fwd_ok (\<lambda>p. a0 ! p) d (fwd_K F) 0 t a0 a \<and> p1 = int t \<and> p2 = int t - int d \<and> ip = 0)"

definition col_dn :: "nat \<Rightarrow> nat \<Rightarrow> nat \<Rightarrow> nat \<Rightarrow> bool" where
  "col_dn d i0 j p = (i0 * d + d \<le> p \<or> (i0 * d \<le> p \<and> p < i0 * d + j))"

definition col_back_ok :: "'f::{minus,times} float_ops \<Rightarrow> nat \<Rightarrow> nat \<Rightarrow> nat \<Rightarrow> nat \<Rightarrow> 'f list \<Rightarrow> 'f list \<Rightarrow> bool" where
  "col_back_ok F d m i0 j af a =
     back_ok d (back_K F) (of_lit F (lu_value CLAST)) 0 (m * d) (col_dn d i0 j) af a"

definition col_last_st :: "'f::{minus,times} float_ops \<Rightarrow> nat \<Rightarrow> nat \<Rightarrow> 'f list \<Rightarrow> nat \<Rightarrow> 'f pass_state \<Rightarrow> bool" where
  "col_last_st F d m af j = (\<lambda>(a, p1, p2, ip).
     col_back_ok F d m (m - 1) j af a \<and> p1 = int ((m - 1) * d + j) \<and>
     p2 = int ((m - 1) * d) \<and> ip = 0)"

definition col_back_st :: "'f::{minus,times} float_ops \<Rightarrow> nat \<Rightarrow> nat \<Rightarrow> 'f list \<Rightarrow> nat \<Rightarrow> nat \<Rightarrow> 'f pass_state \<Rightarrow> bool" where
  "col_back_st F d m af i0 j = (\<lambda>(a, p1, p2, ip).
     col_back_ok F d m i0 j af a \<and> p1 = int (i0 * d + j) \<and>
     p2 = int (i0 * d + d + j) \<and> ip = 0)"

subsection \<open>TensorSynthesizer: the sliding window of control coefficients\<close>

text \<open>
  The window is the sixteen arrays \<^verbatim>\<open>float a_top_left[channels]\<close> \<dots>
  \<^verbatim>\<open>float a_farbottom_farright[channels]\<close>, the three arrays \<^verbatim>\<open>coef_left\<close>,
  \<^verbatim>\<open>coef_center\<close>, \<^verbatim>\<open>coef_right\<close>, and the read pointers \<^verbatim>\<open>a1\<close> \<dots> \<^verbatim>\<open>a4\<close>
  into the control grid \<^verbatim>\<open>a\<close> (held as offsets from \<^verbatim>\<open>a\<close>). An array indexed by the
  channel is a function of the channel index. The type \<open>'f\<close> stands for \<^verbatim>\<open>float\<close>;
  nothing is assumed of its \<open>+\<close> and \<open>*\<close>, so the definitions and theorems hold for the
  machine's rounding arithmetic.
\<close>

record 'f window =
  a_top_left :: "nat \<Rightarrow> 'f"
  a_top_center :: "nat \<Rightarrow> 'f"
  a_top_right :: "nat \<Rightarrow> 'f"
  a_top_farright :: "nat \<Rightarrow> 'f"
  a_middle_left :: "nat \<Rightarrow> 'f"
  a_middle_center :: "nat \<Rightarrow> 'f"
  a_middle_right :: "nat \<Rightarrow> 'f"
  a_middle_farright :: "nat \<Rightarrow> 'f"
  a_bottom_left :: "nat \<Rightarrow> 'f"
  a_bottom_center :: "nat \<Rightarrow> 'f"
  a_bottom_right :: "nat \<Rightarrow> 'f"
  a_bottom_farright :: "nat \<Rightarrow> 'f"
  a_farbottom_left :: "nat \<Rightarrow> 'f"
  a_farbottom_center :: "nat \<Rightarrow> 'f"
  a_farbottom_right :: "nat \<Rightarrow> 'f"
  a_farbottom_farright :: "nat \<Rightarrow> 'f"
  coef_left :: "nat \<Rightarrow> 'f"
  coef_center :: "nat \<Rightarrow> 'f"
  coef_right :: "nat \<Rightarrow> 'f"
  a1 :: int
  a2 :: int
  a3 :: int
  a4 :: int

text \<open>The loop \<^verbatim>\<open>c = 0; do { body } while (++c<channels);\<close> over the channels.\<close>

function do_channels :: "(nat \<Rightarrow> 's \<Rightarrow> 's option) \<Rightarrow> nat \<Rightarrow> 's \<Rightarrow> 's option" where
  "do_channels body c s =
     (case body c s of
        None \<Rightarrow> None
      | Some s' \<Rightarrow> if c + 1 < channels then do_channels body (c + 1) s' else Some s')"
  by pat_completeness auto
termination
  by (relation "measure (\<lambda>(body, c, s). channels - c)") auto

declare do_channels.simps [simp del]

text \<open>
  The body of the window shift for \<^verbatim>\<open>j\<close> from 1 to \<^verbatim>\<open>n-3\<close> in the branch that emits the
  last fine row overlapping the first coarse row (\<^verbatim>\<open>eanbqh.c\<close> lines 1153--1176, three
  rows of taps). The assignments run in the source's order.
\<close>

definition first_row_last_shift ::
  "'f::{plus,times} list \<Rightarrow> 'f \<Rightarrow> 'f \<Rightarrow> 'f \<Rightarrow> nat \<Rightarrow> 'f window \<Rightarrow> 'f window option" where
  "first_row_last_shift a middle_ii bottom_ii farbottom_i c w =
     (case deref a (a1 w) of None \<Rightarrow> None | Some v1 \<Rightarrow>
     (case deref a (a2 w) of None \<Rightarrow> None | Some v2 \<Rightarrow>
     (case deref a (a3 w) of None \<Rightarrow> None | Some v3 \<Rightarrow>
       (let w = w\<lparr>a_middle_left := (a_middle_left w)(c := a_middle_center w c)\<rparr>;
            w = w\<lparr>a_middle_center := (a_middle_center w)(c := a_middle_right w c)\<rparr>;
            w = w\<lparr>a_middle_right := (a_middle_right w)(c := a_middle_farright w c)\<rparr>;
            w = w\<lparr>a_middle_farright := (a_middle_farright w)(c := v1), a1 := a1 w + 1\<rparr>;

            w = w\<lparr>a_bottom_left := (a_bottom_left w)(c := a_bottom_center w c)\<rparr>;
            w = w\<lparr>a_bottom_center := (a_bottom_center w)(c := a_bottom_right w c)\<rparr>;
            w = w\<lparr>a_bottom_right := (a_bottom_right w)(c := a_bottom_farright w c)\<rparr>;
            w = w\<lparr>a_bottom_farright := (a_bottom_farright w)(c := v2), a2 := a2 w + 1\<rparr>;

            w = w\<lparr>a_farbottom_left := (a_farbottom_left w)(c := a_farbottom_center w c)\<rparr>;
            w = w\<lparr>a_farbottom_center := (a_farbottom_center w)(c := a_farbottom_right w c)\<rparr>;
            w = w\<lparr>a_farbottom_right := (a_farbottom_right w)(c := a_farbottom_farright w c)\<rparr>;
            w = w\<lparr>a_farbottom_farright := (a_farbottom_farright w)(c := v3), a3 := a3 w + 1\<rparr>;

            w = w\<lparr>coef_left := (coef_left w)(c :=
                    middle_ii * a_middle_left w c
                  + bottom_ii * a_bottom_left w c
                  + farbottom_i * a_farbottom_left w c)\<rparr>;
            w = w\<lparr>coef_center := (coef_center w)(c :=
                    middle_ii * a_middle_center w c
                  + bottom_ii * a_bottom_center w c
                  + farbottom_i * a_farbottom_center w c)\<rparr>;
            w = w\<lparr>coef_right := (coef_right w)(c :=
                    middle_ii * a_middle_right w c
                  + bottom_ii * a_bottom_right w c
                  + farbottom_i * a_farbottom_right w c)\<rparr>
        in Some w))))"

text \<open>
  The same shift in the branch that emits the last fine row overlapping an interior coarse
  row \<^verbatim>\<open>i\<close> (\<^verbatim>\<open>eanbqh.c\<close> lines 1660--1691, \<^verbatim>\<open>eanbqh8.c\<close> lines 1211--1242, four rows
  of taps). Lines 1675--1677 read \<^verbatim>\<open>a_bottom_*\<close> on their right-hand sides.
\<close>

definition interior_row_last_shift ::
  "'f::{plus,times} list \<Rightarrow> 'f \<Rightarrow> 'f \<Rightarrow> 'f \<Rightarrow> 'f \<Rightarrow> nat \<Rightarrow> 'f window \<Rightarrow> 'f window option" where
  "interior_row_last_shift a top_ii middle_ii bottom_ii farbottom_i c w =
     (case deref a (a1 w) of None \<Rightarrow> None | Some v1 \<Rightarrow>
     (case deref a (a2 w) of None \<Rightarrow> None | Some v2 \<Rightarrow>
     (case deref a (a3 w) of None \<Rightarrow> None | Some v3 \<Rightarrow>
     (case deref a (a4 w) of None \<Rightarrow> None | Some v4 \<Rightarrow>
       (let w = w\<lparr>a_top_left := (a_top_left w)(c := a_top_center w c)\<rparr>;
            w = w\<lparr>a_top_center := (a_top_center w)(c := a_top_right w c)\<rparr>;
            w = w\<lparr>a_top_right := (a_top_right w)(c := a_top_farright w c)\<rparr>;
            w = w\<lparr>a_top_farright := (a_top_farright w)(c := v1), a1 := a1 w + 1\<rparr>;

            w = w\<lparr>a_middle_left := (a_middle_left w)(c := a_middle_center w c)\<rparr>;
            w = w\<lparr>a_middle_center := (a_middle_center w)(c := a_middle_right w c)\<rparr>;
            w = w\<lparr>a_middle_right := (a_middle_right w)(c := a_middle_farright w c)\<rparr>;
            w = w\<lparr>a_middle_farright := (a_middle_farright w)(c := v2), a2 := a2 w + 1\<rparr>;

            w = w\<lparr>a_bottom_left := (a_bottom_left w)(c := a_bottom_center w c)\<rparr>;
            w = w\<lparr>a_bottom_center := (a_bottom_center w)(c := a_bottom_right w c)\<rparr>;
            w = w\<lparr>a_bottom_right := (a_bottom_right w)(c := a_bottom_farright w c)\<rparr>;
            w = w\<lparr>a_bottom_farright := (a_bottom_farright w)(c := v3), a3 := a3 w + 1\<rparr>;

            w = w\<lparr>a_farbottom_left := (a_farbottom_left w)(c := a_bottom_center w c)\<rparr>;
            w = w\<lparr>a_farbottom_center := (a_farbottom_center w)(c := a_bottom_right w c)\<rparr>;
            w = w\<lparr>a_farbottom_right := (a_farbottom_right w)(c := a_bottom_farright w c)\<rparr>;
            w = w\<lparr>a_farbottom_farright := (a_farbottom_farright w)(c := v4), a4 := a4 w + 1\<rparr>;

            w = w\<lparr>coef_left := (coef_left w)(c :=
                    top_ii * a_top_left w c
                  + middle_ii * a_middle_left w c
                  + bottom_ii * a_bottom_left w c
                  + farbottom_i * a_farbottom_left w c)\<rparr>;
            w = w\<lparr>coef_center := (coef_center w)(c :=
                    top_ii * a_top_center w c
                  + middle_ii * a_middle_center w c
                  + bottom_ii * a_bottom_center w c
                  + farbottom_i * a_farbottom_center w c)\<rparr>;
            w = w\<lparr>coef_right := (coef_right w)(c :=
                    top_ii * a_top_right w c
                  + middle_ii * a_middle_right w c
                  + bottom_ii * a_bottom_right w c
                  + farbottom_i * a_farbottom_right w c)\<rparr>
        in Some w)))))"

text \<open>A window and a projection, to run the two shifts on.\<close>

definition example_window :: "int window" where
  "example_window =
     \<lparr>a_top_left = (\<lambda>c. 0), a_top_center = (\<lambda>c. 0), a_top_right = (\<lambda>c. 0),
      a_top_farright = (\<lambda>c. 0),
      a_middle_left = (\<lambda>c. 0), a_middle_center = (\<lambda>c. 0), a_middle_right = (\<lambda>c. 0),
      a_middle_farright = (\<lambda>c. 0),
      a_bottom_left = (\<lambda>c. 10), a_bottom_center = (\<lambda>c. 11), a_bottom_right = (\<lambda>c. 12),
      a_bottom_farright = (\<lambda>c. 13),
      a_farbottom_left = (\<lambda>c. 20), a_farbottom_center = (\<lambda>c. 21),
      a_farbottom_right = (\<lambda>c. 22), a_farbottom_farright = (\<lambda>c. 23),
      coef_left = (\<lambda>c. 0), coef_center = (\<lambda>c. 0), coef_right = (\<lambda>c. 0),
      a1 = 0, a2 = 3, a3 = 6, a4 = 9\<rparr>"

definition farbottom_taps :: "'f window \<Rightarrow> nat \<Rightarrow> 'f \<times> 'f \<times> 'f" where
  "farbottom_taps w c = (a_farbottom_left w c, a_farbottom_center w c, a_farbottom_right w c)"

subsection \<open>\<^verbatim>\<open>scale_up\<close>: reading, solving, synthesis\<close>

definition int_mul :: "int \<Rightarrow> int \<Rightarrow> int option" where
  "int_mul a b = (if INT_MIN \<le> a * b \<and> a * b \<le> INT_MAX then Some (a * b) else None)"

text \<open>
  \<^verbatim>\<open>fread (input_row, sizeof(pixval), n_times_channels, inputfile)\<close>: the stream is the
  list of the samples still to be read. The call fills the front of the buffer with as
  many items as there are, up to the count asked for, leaves the rest of the buffer as it
  was, and returns the number of items read.
\<close>

definition fread :: "pixval list \<Rightarrow> int \<Rightarrow> pixval list \<Rightarrow> pixval list \<times> pixval list \<times> int" where
  "fread buf count stream =
     (let k = min (nat count) (length stream)
      in (take k stream @ drop k buf, drop k stream, int k))"

datatype error = ReadFailure

text \<open>
  The loop \<^verbatim>\<open>i = 0; do { ... } while (++i<m);\<close> of lines 571--705: a row is read,
  \<^verbatim>\<open>if (!fread (...)) return 1;\<close>, and eliminated in place.
\<close>

function read_rows ::
  "'f::{minus,times} float_ops \<Rightarrow> 'f \<Rightarrow> int \<Rightarrow> int \<Rightarrow> int \<Rightarrow> int \<Rightarrow> 'f list \<Rightarrow> pixval list \<Rightarrow>
   pixval list \<Rightarrow> (error + 'f list) option" where
  "read_rows F r m n_times_channels n_minus_7_times_channels i a input_row stream =
     (case int_mul i n_times_channels of
        None \<Rightarrow> None
      | Some offset \<Rightarrow>
     (case fread input_row n_times_channels stream of
        (input_row', stream', items) \<Rightarrow>
          if items = 0 then Some (Inl ReadFailure)
          else
     (case row_forward_substitution F r input_row' n_minus_7_times_channels
             (a, offset, offset, 0) of
        None \<Rightarrow> None
      | Some s \<Rightarrow>
     (case row_back_substitution F n_minus_7_times_channels s of
        None \<Rightarrow> None
      | Some s' \<Rightarrow>
     (case int_add i 1 of
        None \<Rightarrow> None
      | Some i' \<Rightarrow>
          if i' < m
          then read_rows F r m n_times_channels n_minus_7_times_channels i' (fst s')
                 input_row' stream'
          else Some (Inr (fst s')))))))"
  by pat_completeness auto
termination
  by (relation "measure (\<lambda>(F, r, m, ntc, nm7, i, rest). nat (m - i))")
     (auto simp: int_add_def split: if_splits)

declare read_rows.simps [simp del]

text \<open>
  The synthesis loops, lines 843--2307 of \<^verbatim>\<open>eanbqh.c\<close> and 414--1846 of
  \<^verbatim>\<open>eanbqh8.c\<close>; the two files differ in the rounding macro and in the byte swap of a
  finished row only, which are the parameters \<open>round_and_clamp\<close> and \<open>swap\<close> here. Every
  sample is stored by
  \<^verbatim>\<open>*output_row_p++ = ROUND_AND_CLAMP_TO_065535( ... );\<close>
  where the argument, the tensor contraction, is a sum of products of \<^verbatim>\<open>float\<close>s: of
  the window of control coefficients and of the band vectors that
  \<^verbatim>\<open>coarse_to_fine_coefficients\<close> fills. This arithmetic never decides a branch; the
  value of the contraction for fine row \<open>ii\<close>, fine column \<open>jj\<close> and channel \<open>c\<close> is the
  parameter \<open>x ii jj c\<close>. Every loop, bound, index and store into \<^verbatim>\<open>output_row\<close> is
  kept. A state of a row is \<^verbatim>\<open>output_row\<close> and the offset of \<^verbatim>\<open>output_row_p\<close>.

  \<^verbatim>\<open>c = 0; do { *output_row_p++ = ROUND_AND_CLAMP_TO_065535(...); } while (++c<channels);\<close>
\<close>

definition emit ::
  "(real \<Rightarrow> 'p option) \<Rightarrow> (int \<Rightarrow> nat \<Rightarrow> real) \<Rightarrow> int \<Rightarrow> 'p list \<times> int \<Rightarrow>
   ('p list \<times> int) option" where
  "emit round_and_clamp x jj =
     do_channels (\<lambda>c (output_row, output_row_p).
       (case round_and_clamp (x jj c) of
          None \<Rightarrow> None
        | Some v \<Rightarrow>
            (case store output_row output_row_p v of
               None \<Rightarrow> None
             | Some output_row' \<Rightarrow> Some (output_row', output_row_p + 1)))) 0"

text \<open>\<^verbatim>\<open>while (jj<last_jj) { ... emit ...; jj++; }\<close>\<close>

function emit_while ::
  "(real \<Rightarrow> 'p option) \<Rightarrow> (int \<Rightarrow> nat \<Rightarrow> real) \<Rightarrow> int \<Rightarrow> int \<Rightarrow> 'p list \<times> int \<Rightarrow>
   (int \<times> 'p list \<times> int) option" where
  "emit_while round_and_clamp x last_jj jj s =
     (if jj < last_jj then
        (case emit round_and_clamp x jj s of
           None \<Rightarrow> None
         | Some s' \<Rightarrow>
             (case int_add jj 1 of
                None \<Rightarrow> None
              | Some jj' \<Rightarrow> emit_while round_and_clamp x last_jj jj' s'))
      else Some (jj, s))"
  by pat_completeness auto
termination
  by (relation "measure (\<lambda>(rc, x, last_jj, jj, s). nat (last_jj - jj))")
     (auto simp: int_add_def split: if_splits)

text \<open>
  \<^verbatim>\<open>j = 1; do { ... last_jj = last_overlapping_jj[j]; while (jj<last_jj) { ... jj++; }
  ... emit ...; jj++; } while (++j<n_minus_two);\<close>
\<close>

function interior_cells ::
  "(real \<Rightarrow> 'p option) \<Rightarrow> (int \<Rightarrow> nat \<Rightarrow> real) \<Rightarrow> int list \<Rightarrow> int \<Rightarrow> int \<Rightarrow> int \<Rightarrow>
   'p list \<times> int \<Rightarrow> (int \<times> int \<times> 'p list \<times> int) option" where
  "interior_cells round_and_clamp x last_overlapping_jj n_minus_two j jj s =
     (case deref last_overlapping_jj j of
        None \<Rightarrow> None
      | Some last_jj \<Rightarrow>
     (case emit_while round_and_clamp x last_jj jj s of
        None \<Rightarrow> None
      | Some (jj1, s1) \<Rightarrow>
     (case emit round_and_clamp x jj1 s1 of
        None \<Rightarrow> None
      | Some s2 \<Rightarrow>
     (case int_add jj1 1 of
        None \<Rightarrow> None
      | Some jj2 \<Rightarrow>
     (case int_add j 1 of
        None \<Rightarrow> None
      | Some j' \<Rightarrow>
          if j' < n_minus_two
          then interior_cells round_and_clamp x last_overlapping_jj n_minus_two j' jj2 s2
          else Some (j', jj2, s2))))))"
  by pat_completeness auto
termination
  by (relation "measure (\<lambda>(rc, x, lo, n_minus_two, j, r). nat (n_minus_two - j))")
     (auto simp: int_add_def split: if_splits)

declare emit_while.simps [simp del] interior_cells.simps [simp del]

text \<open>
  One output row: the first coarse column, the interior ones, \<^verbatim>\<open>j = n-2\<close>, \<^verbatim>\<open>j = n-1\<close>,
  then (in \<^verbatim>\<open>eanbqh.c\<close>) the byte swap of the row in place, and
  \<^verbatim>\<open>fwrite(output_row, sizeof(pixval), nn_times_channels, outputfile)\<close>. The result is the
  buffer as written. Three of the six copies of this code read
  \<^verbatim>\<open>last_overlapping_jj[n_minus_two] + 1\<close> for \<^verbatim>\<open>j = n-2\<close>, the other three
  \<^verbatim>\<open>last_overlapping_jj[j] + 1\<close>: \<open>by_j\<close> tells which.
\<close>

definition synth_row ::
  "(real \<Rightarrow> 'p option) \<Rightarrow> ('p \<Rightarrow> 'p) \<Rightarrow> (int \<Rightarrow> nat \<Rightarrow> real) \<Rightarrow> int list \<Rightarrow> int \<Rightarrow> int \<Rightarrow> bool \<Rightarrow>
   'p list \<Rightarrow> 'p list option" where
  "synth_row round_and_clamp swap x last_overlapping_jj n nn by_j output_row =
     (case deref last_overlapping_jj 0 of None \<Rightarrow> None | Some last_jj \<Rightarrow>
     (case emit_while round_and_clamp x last_jj 0 (output_row, 0) of
        None \<Rightarrow> None | Some (jj, s) \<Rightarrow>
     (case emit round_and_clamp x jj s of None \<Rightarrow> None | Some s \<Rightarrow>
     (case int_add jj 1 of None \<Rightarrow> None | Some jj \<Rightarrow>
     (case interior_cells round_and_clamp x last_overlapping_jj (n - 2) 1 jj s of
        None \<Rightarrow> None | Some (j, jj, s) \<Rightarrow>
     (case deref last_overlapping_jj (if by_j then j else n - 2) of
        None \<Rightarrow> None | Some l \<Rightarrow>
     (case int_add l 1 of None \<Rightarrow> None | Some last_jj \<Rightarrow>
     (case emit_while round_and_clamp x last_jj jj s of None \<Rightarrow> None | Some (jj, s) \<Rightarrow>
     (case emit_while round_and_clamp x nn jj s of
        None \<Rightarrow> None
      | Some (jj, output_row, output_row_p) \<Rightarrow> Some (map swap output_row))))))))))"

text \<open>
  \<^verbatim>\<open>while (ii<last_ii) { ... one row ...; ii++; }\<close> The state is \<^verbatim>\<open>output_row\<close> and
  the rows written to \<^verbatim>\<open>outputfile\<close> so far.
\<close>

function rows_while ::
  "(real \<Rightarrow> 'p option) \<Rightarrow> ('p \<Rightarrow> 'p) \<Rightarrow> (int \<Rightarrow> int \<Rightarrow> nat \<Rightarrow> real) \<Rightarrow> int list \<Rightarrow> int \<Rightarrow> int \<Rightarrow>
   bool \<Rightarrow> int \<Rightarrow> int \<Rightarrow> 'p list \<times> 'p list list \<Rightarrow> (int \<times> 'p list \<times> 'p list list) option" where
  "rows_while round_and_clamp swap x last_overlapping_jj n nn by_j last_ii ii s =
     (if ii < last_ii then
        (case synth_row round_and_clamp swap (x ii) last_overlapping_jj n nn by_j (fst s) of
           None \<Rightarrow> None
         | Some row \<Rightarrow>
             (case int_add ii 1 of
                None \<Rightarrow> None
              | Some ii' \<Rightarrow>
                  rows_while round_and_clamp swap x last_overlapping_jj n nn by_j last_ii ii'
                    (row, snd s @ [row])))
      else Some (ii, s))"
  by pat_completeness auto
termination
  by (relation "measure (\<lambda>(rc, swap, x, lo, n, nn, by_j, last_ii, ii, s). nat (last_ii - ii))")
     (auto simp: int_add_def split: if_splits)

text \<open>
  \<^verbatim>\<open>i = 1; do { last_ii = last_overlapping_ii[i]; while (ii<last_ii) { ... } ... the last
  fine row overlapping coarse row i ...; ii++; } while (++i<m_minus_two);\<close>
\<close>

function interior_rows ::
  "(real \<Rightarrow> 'p option) \<Rightarrow> ('p \<Rightarrow> 'p) \<Rightarrow> (int \<Rightarrow> int \<Rightarrow> nat \<Rightarrow> real) \<Rightarrow> int list \<Rightarrow> int list \<Rightarrow>
   int \<Rightarrow> int \<Rightarrow> int \<Rightarrow> int \<Rightarrow> int \<Rightarrow> 'p list \<times> 'p list list \<Rightarrow>
   (int \<times> int \<times> 'p list \<times> 'p list list) option" where
  "interior_rows round_and_clamp swap x last_overlapping_jj last_overlapping_ii n nn
     m_minus_two i ii s =
     (case deref last_overlapping_ii i of
        None \<Rightarrow> None
      | Some last_ii \<Rightarrow>
     (case rows_while round_and_clamp swap x last_overlapping_jj n nn False last_ii ii s of
        None \<Rightarrow> None
      | Some (ii1, s1) \<Rightarrow>
     (case synth_row round_and_clamp swap (x ii1) last_overlapping_jj n nn True (fst s1) of
        None \<Rightarrow> None
      | Some row \<Rightarrow>
     (case int_add ii1 1 of
        None \<Rightarrow> None
      | Some ii2 \<Rightarrow>
     (case int_add i 1 of
        None \<Rightarrow> None
      | Some i' \<Rightarrow>
          if i' < m_minus_two
          then interior_rows round_and_clamp swap x last_overlapping_jj last_overlapping_ii
                 n nn m_minus_two i' ii2 (row, snd s1 @ [row])
          else Some (i', ii2, row, snd s1 @ [row]))))))"
  by pat_completeness auto
termination
  by (relation "measure (\<lambda>(rc, swap, x, lojj, loii, n, nn, m_minus_two, i, r).
                           nat (m_minus_two - i))")
     (auto simp: int_add_def split: if_splits)

declare rows_while.simps [simp del] interior_rows.simps [simp del]

text \<open>All the rows. The result is what \<^verbatim>\<open>outputfile\<close> received.\<close>

definition synthesize ::
  "(real \<Rightarrow> 'p option) \<Rightarrow> ('p \<Rightarrow> 'p) \<Rightarrow> (int \<Rightarrow> int \<Rightarrow> nat \<Rightarrow> real) \<Rightarrow> int list \<Rightarrow> int list \<Rightarrow>
   int \<Rightarrow> int \<Rightarrow> int \<Rightarrow> int \<Rightarrow> 'p list \<Rightarrow> 'p list list option" where
  "synthesize round_and_clamp swap x last_overlapping_jj last_overlapping_ii m n mm nn
     output_row =
     (case deref last_overlapping_ii 0 of None \<Rightarrow> None | Some last_ii \<Rightarrow>
     (case rows_while round_and_clamp swap x last_overlapping_jj n nn False last_ii 0
             (output_row, []) of
        None \<Rightarrow> None | Some (ii, s) \<Rightarrow>
     (case synth_row round_and_clamp swap (x ii) last_overlapping_jj n nn False (fst s) of
        None \<Rightarrow> None | Some row \<Rightarrow>
     (case int_add ii 1 of None \<Rightarrow> None | Some ii \<Rightarrow>
     (case interior_rows round_and_clamp swap x last_overlapping_jj last_overlapping_ii n nn
             (m - 2) 1 ii (row, snd s @ [row]) of
        None \<Rightarrow> None | Some (i, ii, s) \<Rightarrow>
     (case deref last_overlapping_ii (m - 2) of None \<Rightarrow> None | Some l \<Rightarrow>
     (case int_add l 1 of None \<Rightarrow> None | Some last_ii \<Rightarrow>
     (case rows_while round_and_clamp swap x last_overlapping_jj n nn True last_ii ii s of
        None \<Rightarrow> None | Some (ii, s) \<Rightarrow>
     (case rows_while round_and_clamp swap x last_overlapping_jj n nn True mm ii s of
        None \<Rightarrow> None | Some (ii, s) \<Rightarrow> Some (snd s))))))))))"

text \<open>
  The synthesis of \<^verbatim>\<open>eanbqh8.c\<close>: its macro, and rows written as they are.
\<close>

definition synthesize_8 ::
  "(int \<Rightarrow> int \<Rightarrow> nat \<Rightarrow> real) \<Rightarrow> int list \<Rightarrow> int list \<Rightarrow> int \<Rightarrow> int \<Rightarrow> int \<Rightarrow> int \<Rightarrow>
   uchar list \<Rightarrow> uchar list list option" where
  "synthesize_8 = synthesize ROUND_AND_CLAMP_TO_065535_8 (\<lambda>v. v)"

text \<open>
  \<^verbatim>\<open>scale_up\<close> of \<^verbatim>\<open>eanbqh.c\<close>. The result is the value returned and the rows written
  to \<^verbatim>\<open>outputfile\<close>. Storage that the source allocates and does not initialise
  (\<^verbatim>\<open>a\<close>, \<^verbatim>\<open>input_row\<close>, \<^verbatim>\<open>output_row\<close>, the two overlap arrays) starts with the
  arbitrary contents \<open>junk_f\<close>, \<open>junk_p\<close> and \<open>junk_i\<close>; the allocations themselves are
  taken to succeed. \<^verbatim>\<open>mm_nn_over_m_n = ( (float)mm * nn ) / ( (float)m * n )\<close>. The
  parameter \<^verbatim>\<open>maxval\<close> is not read.
\<close>

definition scale_up ::
  "'f::{minus,times,inverse} float_ops \<Rightarrow> (int \<Rightarrow> int \<Rightarrow> nat \<Rightarrow> real) \<Rightarrow> 'f \<Rightarrow> pixval \<Rightarrow> int \<Rightarrow>
   pixval list \<Rightarrow> int \<Rightarrow> int \<Rightarrow> int \<Rightarrow> int \<Rightarrow> int \<Rightarrow> (int \<times> pixval list list) option" where
  "scale_up F x junk_f junk_p junk_i inputfile m n mm nn maxval =
     (case int_mul (int channels) n of None \<Rightarrow> None | Some n_times_channels \<Rightarrow>
     (case int_mul (int channels) nn of None \<Rightarrow> None | Some nn_times_channels \<Rightarrow>
     (case int_add n_times_channels n_times_channels of
        None \<Rightarrow> None | Some n_times_channels_times_2 \<Rightarrow>
     (case int_add n (- 7) of None \<Rightarrow> None | Some n_minus_7 \<Rightarrow>
     (case int_mul n_minus_7 (int channels) of
        None \<Rightarrow> None | Some n_minus_7_times_channels \<Rightarrow>
     (case int_mul m n_times_channels of None \<Rightarrow> None | Some size_a \<Rightarrow>
     (case read_rows F ((of_int_f F mm * of_int_f F nn) / (of_int_f F m * of_int_f F n))
             m n_times_channels n_minus_7_times_channels 0
             (replicate (nat size_a) junk_f) (replicate (nat n_times_channels) junk_p)
             inputfile of
        None \<Rightarrow> None
      | Some (Inl ReadFailure) \<Rightarrow> Some (1, [])
      | Some (Inr a) \<Rightarrow>
     (case column_forward_substitution F m n_times_channels a of
        None \<Rightarrow> None | Some sf \<Rightarrow>
     (case column_back_substitution F n_times_channels n_times_channels_times_2 sf of
        None \<Rightarrow> None | Some sb \<Rightarrow>
     (case last_overlapping_index n nn (replicate (nat (n - 1)) junk_i) of
        None \<Rightarrow> None | Some last_overlapping_jj \<Rightarrow>
     (case last_overlapping_index m mm (replicate (nat (m - 1)) junk_i) of
        None \<Rightarrow> None | Some last_overlapping_ii \<Rightarrow>
     (case synthesize ROUND_AND_CLAMP_TO_065535 byte_swap x last_overlapping_jj
             last_overlapping_ii m n mm nn (replicate (nat nn_times_channels) junk_p) of
        None \<Rightarrow> None
      | Some written \<Rightarrow> Some (0, written)))))))))))))"

subsection \<open>Proof devices for the synthesis loops\<close>

text \<open>
  \<open>filled v L k\<close>: the row buffer has \<open>L\<close> samples, \<^verbatim>\<open>output_row_p\<close> stands at the first
  sample of fine column \<open>k\<close>, and the columns before \<open>k\<close> hold the samples \<open>v\<close>.
  \<open>row_of v nn\<close> is a whole row of samples \<open>v\<close>.
\<close>

definition filled :: "(int \<Rightarrow> nat \<Rightarrow> 'p) \<Rightarrow> nat \<Rightarrow> nat \<Rightarrow> 'p list \<times> int \<Rightarrow> bool" where
  "filled v L k = (\<lambda>(buf, p). length buf = L \<and> p = int (channels * k) \<and>
     (\<forall>q < channels * k. buf ! q = v (int (q div channels)) (q mod channels)))"

definition row_of :: "(int \<Rightarrow> nat \<Rightarrow> 'p) \<Rightarrow> nat \<Rightarrow> 'p list" where
  "row_of v nn = map (\<lambda>q. v (int (q div channels)) (q mod channels)) [0..<channels * nn]"

text \<open>
  What the synthesis needs of an overlap map: its length, a first entry that is not negative,
  entries that increase strictly, and a last entry below the fine count.
\<close>

definition good_map :: "int list \<Rightarrow> int \<Rightarrow> int \<Rightarrow> bool" where
  "good_map lo cnt fine =
     (length lo = nat (cnt - 1) \<and> 0 \<le> lo ! 0 \<and>
      (\<forall>k. 0 \<le> k \<and> k < cnt - 2 \<longrightarrow> lo ! nat k < lo ! nat (k + 1)) \<and>
      lo ! nat (cnt - 2) < fine)"

text \<open>
  \<open>rows_done swap V nn k\<close>: the rows before fine row \<open>k\<close> were written, with the samples \<open>V\<close>,
  and \<^verbatim>\<open>output_row\<close> has its full length. \<open>image_of\<close> is the whole output.
\<close>

definition rows_done ::
  "('p \<Rightarrow> 'p) \<Rightarrow> (int \<Rightarrow> int \<Rightarrow> nat \<Rightarrow> 'p) \<Rightarrow> nat \<Rightarrow> nat \<Rightarrow> 'p list \<times> 'p list list \<Rightarrow> bool" where
  "rows_done swap V nn k s =
     (length (fst s) = channels * nn \<and>
      snd s = map (\<lambda>i. map swap (row_of (V (int i)) nn)) [0..<k])"

definition image_of :: "('p \<Rightarrow> 'p) \<Rightarrow> (int \<Rightarrow> int \<Rightarrow> nat \<Rightarrow> 'p) \<Rightarrow> nat \<Rightarrow> nat \<Rightarrow> 'p list list" where
  "image_of swap V mm nn = map (\<lambda>i. map swap (row_of (V (int i)) nn)) [0..<mm]"

text \<open>
  \<open>refines rc rc'\<close>: the conversion \<open>rc'\<close> is defined wherever \<open>rc\<close> is, with the same
  result; \<open>completed rc a\<close> gives the sample \<open>a\<close> where \<open>rc\<close> is undefined.
\<close>

definition refines :: "(real \<Rightarrow> 'p option) \<Rightarrow> (real \<Rightarrow> 'p option) \<Rightarrow> bool" where
  "refines rc rc' = (\<forall>r v. rc r = Some v \<longrightarrow> rc' r = Some v)"

definition completed :: "(real \<Rightarrow> 'p option) \<Rightarrow> 'p \<Rightarrow> real \<Rightarrow> 'p option" where
  "completed rc a r = (case rc r of None \<Rightarrow> Some a | Some v \<Rightarrow> Some v)"

subsection \<open>Example data\<close>

text \<open>
  Real numbers standing for the floats, and contraction values that fall below the range of
  the samples, inside it (with fractional parts 1/4 and 1/2) and above it, for 16-bit and
  for 8-bit samples.
\<close>

definition example_ops :: "real float_ops" where
  "example_ops = \<lparr>of_int_f = real_of_int, of_lit = (\<lambda>v. v)\<rparr>"

definition example_x :: "int \<Rightarrow> int \<Rightarrow> nat \<Rightarrow> real" where
  "example_x ii jj c = real_of_int (7000 * ii - 20000) + real c / 4"

definition example_x_8 :: "int \<Rightarrow> int \<Rightarrow> nat \<Rightarrow> real" where
  "example_x_8 ii jj c = real_of_int (25 * ii - 30) + real c / 4"

section \<open>Properties of the overlap map\<close>


lemma int_add_Some: "INT_MIN \<le> a + b \<Longrightarrow> a + b \<le> INT_MAX \<Longrightarrow> int_add a b = Some (a + b)"
  by (simp add: int_add_def)

lemma INT_MIN_neg: "INT_MIN \<le> 0"
  by (simp add: INT_MIN_def)

lemma le_mult_pos: "0 \<le> (a::int) \<Longrightarrow> 0 < c \<Longrightarrow> a \<le> a * c"
  using mult_left_mono [of 1 c a] by simp

lemma inner_while_spec:
  "0 < oc \<Longrightarrow> kkpo = (kk + 1) * oc \<Longrightarrow> 0 \<le> kk \<Longrightarrow> b + oc \<le> INT_MAX \<Longrightarrow>
   \<exists>kk'. inner_while oc b kk kkpo = Some (kk', (kk' + 1) * oc) \<and> kk \<le> kk' \<and>
         b \<le> (kk' + 1) * oc \<and> (kk' = kk \<or> kk' * oc < b)"
proof (induction oc b kk kkpo rule: inner_while.induct)
  case (1 oc b kk kkpo)
  show ?case
  proof (cases "kkpo < b")
    case False
    then have "inner_while oc b kk kkpo = Some (kk, kkpo)"
      by (simp add: inner_while.simps [of oc b kk kkpo])
    with False "1.prems" show ?thesis by simp
  next
    case True
    have "kk + 1 \<le> (kk + 1) * oc"
      using "1.prems" by (intro le_mult_pos) auto
    then have kk1: "kk + 1 \<le> INT_MAX"
      using "1.prems" True by linarith
    have a1: "int_add kk 1 = Some (kk + 1)"
      using kk1 "1.prems" INT_MIN_neg by (intro int_add_Some) linarith+
    have "0 \<le> (kk + 1) * oc"
      using "1.prems" by simp
    then have a2: "int_add kkpo oc = Some (kkpo + oc)"
      using "1.prems" True INT_MIN_neg by (intro int_add_Some) linarith+
    have "\<exists>kk'. inner_while oc b (kk + 1) (kkpo + oc) = Some (kk', (kk' + 1) * oc) \<and>
            kk + 1 \<le> kk' \<and> b \<le> (kk' + 1) * oc \<and> (kk' = kk + 1 \<or> kk' * oc < b)"
      using "1.prems" by (intro "1.IH" [OF True a1 a2]) (auto simp: algebra_simps)
    then obtain kk' where r: "inner_while oc b (kk + 1) (kkpo + oc) = Some (kk', (kk' + 1) * oc)"
      and k': "kk + 1 \<le> kk'" "b \<le> (kk' + 1) * oc" "kk' = kk + 1 \<or> kk' * oc < b"
      by blast
    have "kk' * oc < b"
      using k'(3) True "1.prems"(2) by auto
    moreover have "inner_while oc b kk kkpo = Some (kk', (kk' + 1) * oc)"
      using True a1 a2 r by (simp add: inner_while.simps [of oc b kk kkpo])
    ultimately show ?thesis
      using k' by auto
  qed
qed

lemma store_Some: "0 \<le> k \<Longrightarrow> nat k < length arr \<Longrightarrow> store arr k v = Some (arr[nat k := v])"
  by (simp add: store_def)

lemma upsize_loop_spec:
  "0 < oc \<Longrightarrow> oc < oo \<Longrightarrow> 0 \<le> k \<Longrightarrow> k < oc - 1 \<Longrightarrow> om1 = oc - 1 \<Longrightarrow>
   kpoo = (k + 1) * oo \<Longrightarrow> kkpo = (kk + 1) * oc \<Longrightarrow> 0 \<le> kk \<Longrightarrow> kkpo < kpoo \<Longrightarrow>
   length arr = nat (oc - 1) \<Longrightarrow> oc * oo \<le> INT_MAX \<Longrightarrow>
   \<exists>arr'. upsize_loop oc oo om1 k kpoo kk kkpo arr = Some arr' \<and> length arr' = length arr \<and>
      (\<forall>i. 0 \<le> i \<and> i < k \<longrightarrow> arr' ! nat i = arr ! nat i) \<and>
      (\<forall>i. k \<le> i \<and> i < oc - 1 \<longrightarrow> is_last oc oo i (arr' ! nat i))"
proof (induction oc oo om1 k kpoo kk kkpo arr rule: upsize_loop.induct)
  case (1 oc oo om1 k kpoo kk kkpo arr)
  note p = "1.prems"
  have oo_pos: "0 < oo" using p by linarith
  have k2: "(k + 2) * oo \<le> oc * oo"
    using p oo_pos by (intro mult_right_mono) auto
  have kpoo_oo: "kpoo + oo \<le> INT_MAX"
    using k2 p by (simp add: algebra_simps)
  have kk_le: "kk + 1 \<le> (kk + 1) * oc"
    using p by (intro le_mult_pos) auto
  have a1: "int_add kk 1 = Some (kk + 1)"
    using p kk_le kpoo_oo oo_pos INT_MIN_neg by (intro int_add_Some) linarith+
  have kkpo_nn: "0 \<le> kkpo" using p by simp
  have a2: "int_add kkpo oc = Some (kkpo + oc)"
    using p kkpo_nn kpoo_oo INT_MIN_neg by (intro int_add_Some) linarith+
  have "\<exists>kk'. inner_while oc kpoo (kk + 1) (kkpo + oc) = Some (kk', (kk' + 1) * oc) \<and>
          kk + 1 \<le> kk' \<and> kpoo \<le> (kk' + 1) * oc \<and> (kk' = kk + 1 \<or> kk' * oc < kpoo)"
    using p kpoo_oo by (intro inner_while_spec) (auto simp: algebra_simps)
  then obtain kk2 where iw: "inner_while oc kpoo (kk + 1) (kkpo + oc) = Some (kk2, (kk2 + 1) * oc)"
    and kk2: "kk + 1 \<le> kk2" "kpoo \<le> (kk2 + 1) * oc" "kk2 = kk + 1 \<or> kk2 * oc < kpoo"
    by blast
  have lt: "kk2 * oc < kpoo"
    using kk2(3) p by auto
  have last_k: "is_last oc oo k kk2"
    using lt kk2(2) p by (simp add: is_last_def)
  have st: "store arr k kk2 = Some (arr[nat k := kk2])"
    using p by (intro store_Some) auto
  have a3: "int_add k 1 = Some (k + 1)"
    using p kpoo_oo INT_MIN_neg le_mult_pos [of "k + 1" oo] oo_pos
    by (intro int_add_Some) linarith+
  have kpoo_nn: "0 \<le> kpoo"
    using p oo_pos by simp
  have a4: "int_add kpoo oo = Some (kpoo + oo)"
    using kpoo_nn kpoo_oo INT_MIN_neg oo_pos by (intro int_add_Some) linarith+
  show ?case
  proof (cases "k + 1 < om1")
    case False
    then have "upsize_loop oc oo om1 k kpoo kk kkpo arr = Some (arr[nat k := kk2])"
      using a1 a2 iw st a3 a4 by (simp add: upsize_loop.simps [of oc oo om1 k kpoo kk kkpo arr])
    moreover have "\<forall>i. k \<le> i \<and> i < oc - 1 \<longrightarrow> i = k"
      using False p by auto
    ultimately show ?thesis
      using last_k p by (auto simp: nth_list_update)
  next
    case True
    have "\<exists>arr'. upsize_loop oc oo om1 (k + 1) (kpoo + oo) kk2 ((kk2 + 1) * oc) (arr[nat k := kk2])
              = Some arr' \<and> length arr' = length (arr[nat k := kk2]) \<and>
          (\<forall>i. 0 \<le> i \<and> i < k + 1 \<longrightarrow> arr' ! nat i = (arr[nat k := kk2]) ! nat i) \<and>
          (\<forall>i. k + 1 \<le> i \<and> i < oc - 1 \<longrightarrow> is_last oc oo i (arr' ! nat i))"
    proof (rule "1.IH" [OF a1 a2 iw refl st a3 a4 True])
      show "(kk2 + 1) * oc < kpoo + oo"
        using lt p by (simp add: algebra_simps)
    qed (use p kk2 True in \<open>auto simp: algebra_simps\<close>)
    then obtain arr' where
      r: "upsize_loop oc oo om1 (k + 1) (kpoo + oo) kk2 ((kk2 + 1) * oc) (arr[nat k := kk2]) = Some arr'"
      and len: "length arr' = length arr"
      and old: "\<forall>i. 0 \<le> i \<and> i < k + 1 \<longrightarrow> arr' ! nat i = (arr[nat k := kk2]) ! nat i"
      and new: "\<forall>i. k + 1 \<le> i \<and> i < oc - 1 \<longrightarrow> is_last oc oo i (arr' ! nat i)"
      by auto
    have res: "upsize_loop oc oo om1 k kpoo kk kkpo arr = Some arr'"
      using a1 a2 iw st a3 a4 True r by (simp add: upsize_loop.simps [of oc oo om1 k kpoo kk kkpo arr])
    have atk: "arr' ! nat k = kk2"
      using old p by (simp add: nth_list_update)
    have "is_last oc oo i (arr' ! nat i)" if "k \<le> i" "i < oc - 1" for i
    proof (cases "i = k")
      case True
      then show ?thesis using atk last_k by simp
    next
      case False
      then show ?thesis using that new by auto
    qed
    moreover have "arr' ! nat i = arr ! nat i" if "0 \<le> i" "i < k" for i
    proof -
      have "nat i \<noteq> nat k" using that by auto
      then show ?thesis using old that by (simp add: nth_list_update)
    qed
    ultimately show ?thesis
      using res len by auto
  qed
qed

lemma int_add_SomeD: "int_add a b = Some c \<Longrightarrow> c = a + b \<and> INT_MIN \<le> a + b \<and> a + b \<le> INT_MAX"
  by (auto simp: int_add_def split: if_splits)

lemma case_option_SomeE:
  assumes "(case x of None \<Rightarrow> None | Some y \<Rightarrow> f y) = Some z"
  obtains y where "x = Some y" "f y = Some z"
  using assms by (cases x) auto

lemma case_prodE':
  assumes "(case p of (a, b) \<Rightarrow> f a b) = Some z"
  obtains a b where "p = (a, b)" "f a b = Some z"
  using assms by (cases p) auto

lemma upsize_loop_defined:
  "upsize_loop oc oo om1 k kpoo kk kkpo arr = Some arr' \<Longrightarrow> om1 = oc - 1 \<Longrightarrow>
   kpoo = (k + 1) * oo \<Longrightarrow> 0 \<le> oo \<Longrightarrow> oc * oo \<le> INT_MAX"
proof (induction oc oo om1 k kpoo kk kkpo arr rule: upsize_loop.induct)
  case (1 oc oo om1 k kpoo kk kkpo arr)
  from "1.prems"(1) obtain kk1 kkpo1 kk2 kkpo2 arr1 k' kpoo' where
    a1: "int_add kk 1 = Some kk1" and a2: "int_add kkpo oc = Some kkpo1"
    and iw: "inner_while oc kpoo kk1 kkpo1 = Some (kk2, kkpo2)"
    and st: "store arr k kk2 = Some arr1"
    and a3: "int_add k 1 = Some k'" and a4: "int_add kpoo oo = Some kpoo'"
    and r: "(if k' < om1 then upsize_loop oc oo om1 k' kpoo' kk2 kkpo2 arr1 else Some arr1) = Some arr'"
    unfolding upsize_loop.simps [of oc oo om1 k kpoo kk kkpo arr]
    by (elim case_option_SomeE case_prodE') blast
  have k': "k' = k + 1" and kpoo': "kpoo' = kpoo + oo" "kpoo + oo \<le> INT_MAX"
    using int_add_SomeD [OF a3] int_add_SomeD [OF a4] by auto
  show ?case
  proof (cases "k' < om1")
    case True
    with r have "upsize_loop oc oo om1 k' kpoo' kk2 kkpo2 arr1 = Some arr'" by simp
    then show ?thesis
      using "1.prems" k' kpoo'
      by (intro "1.IH" [OF a1 a2 iw refl st a3 a4 True]) (auto simp: algebra_simps)
  next
    case False
    then have "oc \<le> k + 2" using k' "1.prems" by simp
    then have "oc * oo \<le> (k + 2) * oo"
      using "1.prems" by (intro mult_right_mono) auto
    then show ?thesis
      using kpoo' "1.prems" by (simp add: algebra_simps)
  qed
qed

lemma same_size_loop_spec:
  "0 \<le> k \<Longrightarrow> k < om1 \<Longrightarrow> om1 \<le> INT_MAX \<Longrightarrow> length arr = nat om1 \<Longrightarrow>
   \<exists>arr'. same_size_loop om1 k arr = Some arr' \<and> length arr' = length arr \<and>
      (\<forall>i. 0 \<le> i \<and> i < k \<longrightarrow> arr' ! nat i = arr ! nat i) \<and>
      (\<forall>i. k \<le> i \<and> i < om1 \<longrightarrow> arr' ! nat i = i)"
proof (induction om1 k arr rule: same_size_loop.induct)
  case (1 om1 k arr)
  note p = "1.prems"
  have st: "store arr k k = Some (arr[nat k := k])"
    using p by (intro store_Some) auto
  have a: "int_add k 1 = Some (k + 1)"
    using p INT_MIN_neg by (intro int_add_Some) linarith+
  show ?case
  proof (cases "k + 1 < om1")
    case False
    then have "same_size_loop om1 k arr = Some (arr[nat k := k])"
      using st a by (simp add: same_size_loop.simps [of om1 k arr])
    moreover have "\<forall>i. k \<le> i \<and> i < om1 \<longrightarrow> i = k"
      using False p by auto
    ultimately show ?thesis
      using p by (auto simp: nth_list_update)
  next
    case True
    have "\<exists>arr'. same_size_loop om1 (k + 1) (arr[nat k := k]) = Some arr' \<and>
            length arr' = length (arr[nat k := k]) \<and>
            (\<forall>i. 0 \<le> i \<and> i < k + 1 \<longrightarrow> arr' ! nat i = (arr[nat k := k]) ! nat i) \<and>
            (\<forall>i. k + 1 \<le> i \<and> i < om1 \<longrightarrow> arr' ! nat i = i)"
      using p True by (intro "1.IH" [OF st a True]) auto
    then obtain arr' where r: "same_size_loop om1 (k + 1) (arr[nat k := k]) = Some arr'"
      and len: "length arr' = length arr"
      and old: "\<forall>i. 0 \<le> i \<and> i < k + 1 \<longrightarrow> arr' ! nat i = (arr[nat k := k]) ! nat i"
      and new: "\<forall>i. k + 1 \<le> i \<and> i < om1 \<longrightarrow> arr' ! nat i = i"
      by auto
    have res: "same_size_loop om1 k arr = Some arr'"
      using st a True r by (simp add: same_size_loop.simps [of om1 k arr])
    have atk: "arr' ! nat k = k"
      using old p by (simp add: nth_list_update)
    have "arr' ! nat i = i" if "k \<le> i" "i < om1" for i
      using that atk new by (cases "i = k") auto
    moreover have "arr' ! nat i = arr ! nat i" if "0 \<le> i" "i < k" for i
    proof -
      have "nat i \<noteq> nat k" using that by auto
      then show ?thesis using old that by (simp add: nth_list_update)
    qed
    ultimately show ?thesis
      using res len by auto
  qed
qed

lemma loi_upsize:
  assumes "2 \<le> oc" "oc < oo" "length arr = nat (oc - 1)" "oc * oo \<le> INT_MAX"
  shows "\<exists>m. last_overlapping_index oc oo arr = Some m \<and> length m = nat (oc - 1) \<and>
           (\<forall>i. 0 \<le> i \<and> i < oc - 1 \<longrightarrow> is_last oc oo i (m ! nat i))"
proof -
  have oo1: "oc \<le> oc * oo"
    using assms by (intro le_mult_pos) auto
  have "oc - 1 \<le> INT_MAX" "INT_MIN \<le> oc - 1"
    using assms oo1 INT_MIN_neg by linarith+
  then have s: "int_add oc (- 1) = Some (oc - 1)"
    by (simp add: int_add_def)
  have "\<exists>arr'. upsize_loop oc oo (oc - 1) 0 oo 0 oc arr = Some arr' \<and> length arr' = length arr \<and>
      (\<forall>i. 0 \<le> i \<and> i < 0 \<longrightarrow> arr' ! nat i = arr ! nat i) \<and>
      (\<forall>i. 0 \<le> i \<and> i < oc - 1 \<longrightarrow> is_last oc oo i (arr' ! nat i))"
    using assms by (intro upsize_loop_spec) auto
  then show ?thesis
    using s assms by (auto simp: last_overlapping_index_def)
qed

lemma loi_defined:
  assumes "last_overlapping_index oc oo arr = Some m" "oc < oo" "0 \<le> oc"
  shows "oc * oo \<le> INT_MAX"
proof -
  from assms have "upsize_loop oc oo (oc - 1) 0 oo 0 oc arr = Some m"
    by (auto simp: last_overlapping_index_def split: option.splits dest: int_add_SomeD)
  then show ?thesis
    using assms by (intro upsize_loop_defined [of oc oo "oc - 1" 0 oo 0 oc arr m]) auto
qed

lemma loi_same_size:
  assumes "2 \<le> oc" "oc \<le> INT_MAX" "length arr = nat (oc - 1)"
  shows "\<exists>m. last_overlapping_index oc oc arr = Some m \<and> length m = nat (oc - 1) \<and>
           (\<forall>i. 0 \<le> i \<and> i < oc - 1 \<longrightarrow> m ! nat i = i)"
proof -
  have "oc - 1 \<le> INT_MAX" "INT_MIN \<le> oc - 1"
    using assms INT_MIN_neg by linarith+
  then have s: "int_add oc (- 1) = Some (oc - 1)"
    by (simp add: int_add_def)
  have "\<exists>arr'. same_size_loop (oc - 1) 0 arr = Some arr' \<and> length arr' = length arr \<and>
      (\<forall>i. 0 \<le> i \<and> i < 0 \<longrightarrow> arr' ! nat i = arr ! nat i) \<and>
      (\<forall>i. 0 \<le> i \<and> i < oc - 1 \<longrightarrow> arr' ! nat i = i)"
    using assms by (intro same_size_loop_spec) auto
  then show ?thesis
    using s assms by (auto simp: last_overlapping_index_def)
qed

lemma is_last_greatest:
  assumes "is_last oc oo k j" "0 < oc"
  shows "j * oc < (k + 1) * oo \<and> (\<forall>j'. j' * oc < (k + 1) * oo \<longrightarrow> j' \<le> j)"
proof -
  have "j' \<le> j" if "j' * oc < (k + 1) * oo" for j'
  proof -
    have "(k + 1) * oo \<le> (j + 1) * oc" using assms by (simp add: is_last_def)
    then have "j' * oc < (j + 1) * oc" using that by linarith
    then have "j' < j + 1" using assms by (simp add: mult_less_cancel_right)
    then show ?thesis by simp
  qed
  then show ?thesis using assms by (simp add: is_last_def)
qed

lemma is_last_step:
  assumes "is_last oc oo k j" "is_last oc oo (k + 1) j'" "0 < oc" "oc < oo"
  shows "j < j'"
proof -
  have "(j + 1) * oc < (k + 1) * oo + oo"
    using assms by (simp add: is_last_def algebra_simps)
  also have "\<dots> \<le> (j' + 1) * oc"
    using assms by (simp add: is_last_def algebra_simps)
  finally have "j + 1 < j' + 1" using assms by (simp add: mult_less_cancel_right)
  then show ?thesis by simp
qed

lemma is_last_first:
  assumes "is_last oc oo 0 j" "0 < oc" "oc < oo"
  shows "1 \<le> j"
proof -
  have "oo \<le> (j + 1) * oc" using assms by (simp add: is_last_def)
  then have "1 * oc < (j + 1) * oc" using assms by linarith
  then have "1 < j + 1" using assms(2) mult_less_cancel_right [of 1 oc "j + 1"] by simp
  then show ?thesis by simp
qed

lemma is_last_bound:
  assumes "is_last oc oo k j" "0 < oc" "0 < oo" "k + 1 \<le> oc"
  shows "j < oo"
proof -
  have "(k + 1) * oo \<le> oc * oo" using assms by (intro mult_right_mono) auto
  moreover have "j * oc < (k + 1) * oo" using assms by (simp add: is_last_def)
  ultimately have "j * oc < oo * oc" using mult.commute [of oc oo] by linarith
  then show ?thesis using assms by (simp add: mult_less_cancel_right)
qed

text \<open>
  Claim C4, amended. For a coarse count of at least 2: when the fine count equals the coarse
  count, \<^verbatim>\<open>last_overlapping_index\<close> stores \<open>map[k] = k\<close> for every \<open>k\<close> from 0 to
  \<open>coarse_count - 2\<close>; when the fine count is larger and the product
  \<open>coarse_count * fine_count\<close> is at most \<open>INT_MAX\<close>, every such \<open>map[k]\<close> is the
  largest fine index \<open>j\<close> with \<open>j * coarse_count < (k+1) * fine_count\<close>.
\<close>

theorem last_overlapping_index_entries:
  assumes "2 \<le> oc" and "oc \<le> INT_MAX" and "length arr = nat (oc - 1)"
  shows "(oo = oc \<longrightarrow>
            (\<exists>m. last_overlapping_index oc oo arr = Some m \<and>
                 (\<forall>k. 0 \<le> k \<and> k \<le> oc - 2 \<longrightarrow> m ! nat k = k))) \<and>
         (oc < oo \<and> oc * oo \<le> INT_MAX \<longrightarrow>
            (\<exists>m. last_overlapping_index oc oo arr = Some m \<and>
                 (\<forall>k. 0 \<le> k \<and> k \<le> oc - 2 \<longrightarrow>
                    m ! nat k * oc < (k + 1) * oo \<and>
                    (\<forall>j. j * oc < (k + 1) * oo \<longrightarrow> j \<le> m ! nat k))))"
proof (intro conjI impI)
  assume "oo = oc"
  then show "\<exists>m. last_overlapping_index oc oo arr = Some m \<and>
                 (\<forall>k. 0 \<le> k \<and> k \<le> oc - 2 \<longrightarrow> m ! nat k = k)"
    using loi_same_size [OF assms] by auto
next
  assume a: "oc < oo \<and> oc * oo \<le> INT_MAX"
  from loi_upsize [OF assms(1) _ assms(3), of oo] a obtain m where
    m: "last_overlapping_index oc oo arr = Some m"
    and l: "\<And>i. 0 \<le> i \<Longrightarrow> i < oc - 1 \<Longrightarrow> is_last oc oo i (m ! nat i)"
    by blast
  have "m ! nat k * oc < (k + 1) * oo \<and> (\<forall>j. j * oc < (k + 1) * oo \<longrightarrow> j \<le> m ! nat k)"
    if "0 \<le> k" "k \<le> oc - 2" for k
    using is_last_greatest [of oc oo k "m ! nat k"] l [of k] that assms by auto
  with m show "\<exists>m. last_overlapping_index oc oo arr = Some m \<and>
                 (\<forall>k. 0 \<le> k \<and> k \<le> oc - 2 \<longrightarrow>
                    m ! nat k * oc < (k + 1) * oo \<and>
                    (\<forall>j. j * oc < (k + 1) * oo \<longrightarrow> j \<le> m ! nat k))"
    by blast
qed

text \<open>Coarse count 3 with fine counts 3 and 7.\<close>

theorem last_overlapping_index_entries_witness:
  "(2::int) \<le> 3 \<and> (3::int) \<le> INT_MAX \<and> length [0, 0 :: int] = nat (3 - 1) \<and>
   (3::int) < 7 \<and> (3::int) * 7 \<le> INT_MAX \<and>
   (\<exists>m. last_overlapping_index 3 3 [0, 0] = Some m \<and> m ! nat 1 = 1) \<and>
   (\<exists>m. last_overlapping_index 3 7 [0, 0] = Some m \<and> m ! nat 1 * 3 < (1 + 1) * 7)"
proof -
  have h: "(2::int) \<le> 3" "(3::int) \<le> INT_MAX" "length [0, 0 :: int] = nat (3 - 1)"
    "(3::int) < 7 \<and> (3::int) * 7 \<le> INT_MAX"
    by (simp_all add: INT_MAX_def)
  from last_overlapping_index_entries [OF h(1,2,3), of 3]
  obtain m where m: "last_overlapping_index 3 3 [0, 0] = Some m"
    "\<And>k. 0 \<le> k \<Longrightarrow> k \<le> 3 - 2 \<Longrightarrow> m ! nat k = k"
    by auto
  from m(2) [of 1] have "m ! nat 1 = 1" by simp
  with m(1) have "\<exists>m. last_overlapping_index 3 3 [0, 0] = Some m \<and> m ! nat 1 = 1"
    by blast
  moreover from last_overlapping_index_entries [OF h(1,2,3), of 7] h(4)
  obtain m' where m': "last_overlapping_index 3 7 [0, 0] = Some m'"
    "\<And>k. 0 \<le> k \<Longrightarrow> k \<le> 3 - 2 \<Longrightarrow> m' ! nat k * 3 < (k + 1) * 7"
    by auto
  from m'(2) [of 1] have "m' ! nat 1 * 3 < (1 + 1) * 7" by simp
  with m'(1) have "\<exists>m. last_overlapping_index 3 7 [0, 0] = Some m \<and> m ! nat 1 * 3 < (1 + 1) * 7"
    by blast
  ultimately show ?thesis using h by blast
qed

text \<open>
  Claim C4 as worded, for every fine count, fails: the running products of the source are C
  \<^verbatim>\<open>int\<close>s, and for 3 coarse and \<open>2^30\<close> fine cells \<^verbatim>\<open>k_plus_one_times_oo += oo\<close>
  overflows after the first coarse cell, so the call has no defined result.
\<close>

theorem last_overlapping_index_entries_counterexample:
  "last_overlapping_index 3 1073741824 [0, 0] = None"
proof (cases "last_overlapping_index 3 1073741824 [0, 0]")
  case None
  then show ?thesis .
next
  case (Some m)
  from loi_defined [OF Some] have "(3::int) * 1073741824 \<le> INT_MAX" by simp
  then show ?thesis by (simp add: INT_MAX_def)
qed






section \<open>Properties of rounding and clamping\<close>


lemma c_trunc_range:
  assumes "real_of_int (INT_MIN - 1) < s" and "s < real_of_int (INT_MAX + 1)"
  shows "INT_MIN \<le> c_trunc s \<and> c_trunc s \<le> INT_MAX"
proof (cases "0 \<le> s")
  case True
  then have "0 \<le> \<lfloor>s\<rfloor>" by simp
  moreover have "\<lfloor>s\<rfloor> < INT_MAX + 1"
    using assms(2) by (simp only: floor_less_iff)
  ultimately show ?thesis
    using True by (simp add: c_trunc_def INT_MIN_def)
next
  case False
  then have "\<lceil>s\<rceil> \<le> 0" by (simp add: ceiling_le_iff)
  moreover have "INT_MIN - 1 < \<lceil>s\<rceil>"
    using assms(1) by (simp only: less_ceiling_iff)
  ultimately show ?thesis
    using False by (simp add: c_trunc_def INT_MAX_def)
qed

lemma uint_clamp_pixval:
  "uint (if out > 65535 then 65535 else if out < 0 then 0 else word_of_int out :: 16 word)
     = max 0 (min 65535 out)"
  by (simp add: uint_word_of_int take_bit_int_eq_self max_def min_def)

lemma uint_clamp_uchar:
  "uint (word_of_int (if out > 255 then 255 else if out < 0 then 0 else out) :: 8 word)
     = max 0 (min 255 out)"
  by (simp add: uint_word_of_int take_bit_int_eq_self max_def min_def)

lemma byte_swap_involution: "byte_swap (byte_swap v) = v"
proof -
  have m: "(0xff::16 word) = mask 8" "(0xff00::16 word) = push_bit 8 (mask 8)"
    by (simp_all add: mask_eq_exp_minus_1 push_bit_eq_mult)
  show ?thesis
    unfolding byte_swap_def m
    by (rule bit_word_eqI) (auto simp: bit_simps)
qed

lemma byte_swap_0_1: "byte_swap 0 \<noteq> byte_swap 1"
  using byte_swap_involution [of 0] byte_swap_involution [of 1] by (metis zero_neq_one)

lemma c_trunc_spec: "c_trunc s = (if s < 0 then - \<lfloor>- s\<rfloor> else \<lfloor>s\<rfloor>)"
  by (simp add: c_trunc_def ceiling_def not_le)

lemma round_and_clamp_value:
  assumes "ROUND_AND_CLAMP_TO_065535 x = Some v"
  shows "uint v = spec_round_and_clamp 65535 x"
proof -
  from assms have "v = (if c_trunc (1 / 2 + x) > 65535 then 65535
      else if c_trunc (1 / 2 + x) < 0 then 0 else word_of_int (c_trunc (1 / 2 + x)))"
    by (auto simp: ROUND_AND_CLAMP_TO_065535_def double_to_int_def split: option.splits if_splits)
  then have "uint v = max 0 (min 65535 (c_trunc (1 / 2 + x)))"
    by (simp only: uint_clamp_pixval)
  then show ?thesis
    by (simp add: spec_round_and_clamp_def c_trunc_spec add.commute)
qed

lemma round_and_clamp_8_value:
  assumes "ROUND_AND_CLAMP_TO_065535_8 x = Some v"
  shows "uint v = spec_round_and_clamp 255 x"
proof -
  from assms have "v = word_of_int (if c_trunc (1 / 2 + x) > 255 then 255
      else if c_trunc (1 / 2 + x) < 0 then 0 else c_trunc (1 / 2 + x))"
    by (auto simp: ROUND_AND_CLAMP_TO_065535_8_def double_to_int_def split: option.splits if_splits)
  then have "uint v = max 0 (min 255 (c_trunc (1 / 2 + x)))"
    by (simp only: uint_clamp_uchar)
  then show ?thesis
    by (simp add: spec_round_and_clamp_def c_trunc_spec add.commute)
qed

lemma round_and_clamp_defined:
  assumes "real_of_int (INT_MIN - 1) < x + 1 / 2" and "x + 1 / 2 < real_of_int (INT_MAX + 1)"
  shows "\<exists>v. ROUND_AND_CLAMP_TO_065535 x = Some v"
    and "\<exists>v. ROUND_AND_CLAMP_TO_065535_8 x = Some v"
proof -
  have "real_of_int (INT_MIN - 1) < 1 / 2 + x" "1 / 2 + x < real_of_int (INT_MAX + 1)"
    using assms by (simp_all add: add.commute)
  from c_trunc_range [OF this]
  have "double_to_int (1 / 2 + x) = Some (c_trunc (1 / 2 + x))"
    by (simp add: double_to_int_def)
  then show "\<exists>v. ROUND_AND_CLAMP_TO_065535 x = Some v"
    and "\<exists>v. ROUND_AND_CLAMP_TO_065535_8 x = Some v"
    by (simp_all add: ROUND_AND_CLAMP_TO_065535_def ROUND_AND_CLAMP_TO_065535_8_def)
qed

lemma spec_round_and_clamp_range:
  "0 \<le> maxval \<Longrightarrow> 0 \<le> spec_round_and_clamp maxval x \<and> spec_round_and_clamp maxval x \<le> maxval"
  by (simp add: spec_round_and_clamp_def Let_def)

section \<open>Properties of the elimination passes\<close>

lemma int_add_m1: "INT_MIN < c \<Longrightarrow> c \<le> INT_MAX \<Longrightarrow> int_add c (- 1) = Some (c - 1)"
  by (simp add: int_add_def)

lemma INT_MIN_lt_1: "INT_MIN < 1"
  by (simp add: INT_MIN_def)

lemma do_while_dec_rule:
  assumes "1 \<le> c" and "c \<le> INT_MAX" and "P 0 s"
    and "\<And>j t. j < nat c \<Longrightarrow> P j t \<Longrightarrow> \<exists>t'. body t = Some t' \<and> P (Suc j) t'"
  shows "\<exists>s'. do_while_dec c body s = Some s' \<and> P (nat c) s'"
  using assms
proof (induction "nat c" arbitrary: c s P)
  case 0
  then show ?case by simp
next
  case (Suc k)
  from Suc.prems(4) [of 0 s] Suc.prems(1,3) obtain t' where t': "body s = Some t'" "P (Suc 0) t'"
    by auto
  have dec: "int_add c (- 1) = Some (c - 1)"
    using Suc.prems INT_MIN_lt_1 by (intro int_add_m1) linarith+
  show ?case
  proof (cases "c - 1 = 0")
    case True
    then have "do_while_dec c body s = Some t'"
      using t' dec by (subst do_while_dec.simps) simp
    moreover have "nat c = Suc 0" using True by simp
    ultimately show ?thesis using t' by simp
  next
    case False
    have "\<exists>s'. do_while_dec (c - 1) body t' = Some s' \<and> P (Suc (nat (c - 1))) s'"
    proof (rule Suc.hyps(1) [of "c - 1" "\<lambda>j. P (Suc j)" t'])
      show "k = nat (c - 1)" using Suc.hyps(2) by simp
      show "1 \<le> c - 1" using False Suc.prems(1) by simp
      show "c - 1 \<le> INT_MAX" using Suc.prems(2) by simp
      show "P (Suc 0) t'" by (rule t')
      show "\<exists>t'. body t = Some t' \<and> P (Suc (Suc j)) t'" if "j < nat (c - 1)" "P (Suc j) t" for j t
        using Suc.prems(4) [of "Suc j" t] that by auto
    qed
    moreover have "Suc (nat (c - 1)) = nat c" using Suc.prems(1) by simp
    moreover have "do_while_dec c body s = do_while_dec (c - 1) body t'"
      using t' dec False by (subst do_while_dec.simps) simp
    ultimately show ?thesis by simp
  qed
qed

lemma while_dec_rule:
  assumes "0 \<le> c" and "c \<le> INT_MAX" and "P 0 s"
    and "\<And>j t. j < nat c \<Longrightarrow> P j t \<Longrightarrow> \<exists>t'. body t = Some t' \<and> P (Suc j) t'"
  shows "\<exists>s'. while_dec c body s = Some s' \<and> P (nat c) s'"
  using assms
proof (induction "nat c" arbitrary: c s P)
  case 0
  then have "c = 0" by simp
  then have "while_dec c body s = Some s" by (subst while_dec.simps) simp
  then show ?case using "0.prems"(3) \<open>c = 0\<close> by simp
next
  case (Suc k)
  have pos: "0 < c" using Suc.hyps(2) by simp
  from Suc.prems(4) [of 0 s] Suc.prems(3) pos obtain t' where
    t': "body s = Some t'" "P (Suc 0) t'"
    by auto
  have dec: "int_add c (- 1) = Some (c - 1)"
    using Suc.prems pos INT_MIN_lt_1 by (intro int_add_m1) linarith+
  have "\<exists>s'. while_dec (c - 1) body t' = Some s' \<and> P (Suc (nat (c - 1))) s'"
  proof (rule Suc.hyps(1) [of "c - 1" "\<lambda>j. P (Suc j)" t'])
    show "k = nat (c - 1)" using Suc.hyps(2) by simp
    show "0 \<le> c - 1" using pos by simp
    show "c - 1 \<le> INT_MAX" using Suc.prems(2) by simp
    show "P (Suc 0) t'" by (rule t')
    show "\<exists>t'. body t = Some t' \<and> P (Suc (Suc j)) t'" if "j < nat (c - 1)" "P (Suc j) t" for j t
      using Suc.prems(4) [of "Suc j" t] that by auto
  qed
  moreover have "Suc (nat (c - 1)) = nat c" using pos by simp
  moreover have "while_dec c body s = while_dec (c - 1) body t'"
    using t' dec pos by (subst while_dec.simps) simp
  ultimately show ?case by simp
qed

lemma fwd_ok_step:
  assumes "fwd_ok src d K base t a0 a" and "0 < d" and "base + t < length a"
    and "v = (if t < d then src t else src t - a ! (base + t - d) * K (t div d))"
  shows "fwd_ok src d K base (Suc t) a0 (a[base + t := v])"
proof -
  have len: "length a = length a0"
    and out: "\<And>q. q < length a \<Longrightarrow> q < base \<or> base + t \<le> q \<Longrightarrow> a ! q = a0 ! q"
    and inn: "\<And>p. p < t \<Longrightarrow> a ! (base + p) =
          (if p < d then src p else src p - a ! (base + p - d) * K (p div d))"
    using assms(1) by (auto simp: fwd_ok_def)
  let ?a = "a[base + t := v]"
  have 1: "?a ! q = a0 ! q" if "q < length ?a" "q < base \<or> base + Suc t \<le> q" for q
    using that out [of q] by (auto simp: nth_list_update)
  have 2: "?a ! (base + p) = (if p < d then src p else src p - ?a ! (base + p - d) * K (p div d))"
    if "p < Suc t" for p
  proof (cases "p = t")
    case True
    have "?a ! (base + t) = v" using assms(3) by simp
    moreover have "?a ! (base + t - d) = a ! (base + t - d)" if "\<not> t < d"
      using that assms(2) by (simp add: nth_list_update)
    ultimately show ?thesis using True assms(4) by simp
  next
    case False
    then have lt: "p < t" using that by simp
    have "?a ! (base + p) = a ! (base + p)" using lt by (simp add: nth_list_update)
    moreover have "?a ! (base + p - d) = a ! (base + p - d)"
      using lt by (simp add: nth_list_update)
    ultimately show ?thesis using inn [OF lt] by simp
  qed
  show ?thesis
    unfolding fwd_ok_def using len 1 2 by simp
qed

lemma deref_nat: "k < length arr \<Longrightarrow> deref arr (int k) = Some (arr ! k)"
  by (simp add: deref_def)

lemma store_nat: "k < length arr \<Longrightarrow> store arr (int k) v = Some (arr[k := v])"
  by (simp add: store_def)

lemma first_entry_step:
  assumes "row_fwd_st F r input_row base a0 t s" and "t < channels"
    and "base + t < length a0" and "t < length input_row"
  shows "\<exists>s'. first_entry F r input_row s = Some s' \<and> row_fwd_st F r input_row base a0 (Suc t) s'"
proof -
  obtain a p1 p2 ip where s: "s = (a, p1, p2, ip)" by (cases s)
  from assms(1) have ok: "fwd_ok (row_src F r input_row) channels (fwd_K F) base t a0 a"
    and p: "p1 = int (base + t)" "p2 = int base + int (t - channels)" "ip = int t"
    by (simp_all add: s row_fwd_st_def)
  have len: "length a = length a0" using ok by (simp add: fwd_ok_def)
  let ?v = "row_src F r input_row t"
  have "first_entry F r input_row s = Some (a[base + t := ?v], p1 + 1, p2, ip + 1)"
    using assms(3,4) len deref_nat [of t input_row] store_nat [of "base + t" a ?v]
    unfolding s p first_entry_def row_src_def by simp
  moreover have "fwd_ok (row_src F r input_row) channels (fwd_K F) base (Suc t) a0 (a[base + t := ?v])"
    using ok assms(2,3) len by (intro fwd_ok_step) (auto simp: channels_def)
  ultimately show ?thesis
    using p assms(2) by (simp add: row_fwd_st_def)
qed

lemma forward_entry_step:
  assumes "row_fwd_st F r input_row base a0 t s" and "channels \<le> t"
    and "spec_forward_multiplier (t div channels) = K"
    and "base + t < length a0" and "t < length input_row"
  shows "\<exists>s'. forward_entry F r input_row K s = Some s' \<and>
              row_fwd_st F r input_row base a0 (Suc t) s'"
proof -
  obtain a p1 p2 ip where s: "s = (a, p1, p2, ip)" by (cases s)
  from assms(1) have ok: "fwd_ok (row_src F r input_row) channels (fwd_K F) base t a0 a"
    and p: "p1 = int (base + t)" "p2 = int (base + t - channels)" "ip = int t"
    using assms(2) by (simp_all add: s row_fwd_st_def)
  have len: "length a = length a0" using ok by (simp add: fwd_ok_def)
  let ?v = "row_src F r input_row t - a ! (base + t - channels) * fwd_K F (t div channels)"
  have "forward_entry F r input_row K s = Some (a[base + t := ?v], p1 + 1, p2 + 1, ip + 1)"
    using assms(3,4,5) len deref_nat [of t input_row] deref_nat [of "base + t - channels" a]
      store_nat [of "base + t" a ?v]
    unfolding s p forward_entry_def row_src_def fwd_K_def by simp
  moreover have "fwd_ok (row_src F r input_row) channels (fwd_K F) base (Suc t) a0 (a[base + t := ?v])"
    using ok assms(2,4) len by (intro fwd_ok_step) (auto simp: channels_def)
  ultimately show ?thesis
    using p assms(2) by (simp add: row_fwd_st_def Suc_diff_le)
qed

lemma forward_block:
  assumes "row_fwd_st F r input_row base a0 t0 s" and "channels \<le> t0"
    and "\<And>t. t0 \<le> t \<Longrightarrow> t < t0 + nat c \<Longrightarrow> spec_forward_multiplier (t div channels) = K"
    and "base + t0 + nat c \<le> length a0" and "t0 + nat c \<le> length input_row"
    and "1 \<le> c" and "c \<le> INT_MAX"
  shows "\<exists>s'. do_while_dec c (forward_entry F r input_row K) s = Some s' \<and>
              row_fwd_st F r input_row base a0 (t0 + nat c) s'"
proof (rule do_while_dec_rule [where P = "\<lambda>j. row_fwd_st F r input_row base a0 (t0 + j)"])
  show "row_fwd_st F r input_row base a0 (t0 + 0) s" using assms(1) by simp
  show "\<exists>t'. forward_entry F r input_row K t = Some t' \<and>
              row_fwd_st F r input_row base a0 (t0 + Suc j) t'"
    if "j < nat c" "row_fwd_st F r input_row base a0 (t0 + j) t" for j t
    using forward_entry_step [OF that(2), of K] assms(2,4,5) assms(3) [of "t0 + j"] that(1)
    by auto
qed (use assms in auto)

lemma forward_tail:
  assumes "row_fwd_st F r input_row base a0 t0 s" and "channels \<le> t0"
    and "\<And>t. t0 \<le> t \<Longrightarrow> t < t0 + nat c \<Longrightarrow> spec_forward_multiplier (t div channels) = K"
    and "base + t0 + nat c \<le> length a0" and "t0 + nat c \<le> length input_row"
    and "0 \<le> c" and "c \<le> INT_MAX"
  shows "\<exists>s'. while_dec c (forward_entry F r input_row K) s = Some s' \<and>
              row_fwd_st F r input_row base a0 (t0 + nat c) s'"
proof (rule while_dec_rule [where P = "\<lambda>j. row_fwd_st F r input_row base a0 (t0 + j)"])
  show "row_fwd_st F r input_row base a0 (t0 + 0) s" using assms(1) by simp
  show "\<exists>t'. forward_entry F r input_row K t = Some t' \<and>
              row_fwd_st F r input_row base a0 (t0 + Suc j) t'"
    if "j < nat c" "row_fwd_st F r input_row base a0 (t0 + j) t" for j t
    using forward_entry_step [OF that(2), of K] assms(2,4,5) assms(3) [of "t0 + j"] that(1)
    by auto
qed (use assms in auto)

lemma first_block:
  assumes "row_fwd_st F r input_row base a0 0 s"
    and "base + channels \<le> length a0" and "channels \<le> length input_row"
  shows "\<exists>s'. do_while_dec (int channels) (first_entry F r input_row) s = Some s' \<and>
              row_fwd_st F r input_row base a0 channels s'"
proof -
  have "\<exists>s'. do_while_dec (int channels) (first_entry F r input_row) s = Some s' \<and>
              row_fwd_st F r input_row base a0 (nat (int channels)) s'"
  proof (rule do_while_dec_rule [where P = "\<lambda>j. row_fwd_st F r input_row base a0 j"])
    show "\<exists>t'. first_entry F r input_row t = Some t' \<and> row_fwd_st F r input_row base a0 (Suc j) t'"
      if "j < nat (int channels)" "row_fwd_st F r input_row base a0 j t" for j t
      using first_entry_step [OF that(2)] assms(2,3) that(1) by auto
  qed (use assms in \<open>auto simp: channels_def INT_MAX_def\<close>)
  then show ?thesis by simp
qed

lemma div3: "3 * k \<le> t \<Longrightarrow> t < 3 * k + 3 \<Longrightarrow> t div 3 = (k::nat)"
  by linarith

lemma row_fwd_st_init:
  "row_fwd_st F r input_row base a0 0 (a0, int base, int base, 0)"
  by (simp add: row_fwd_st_def fwd_ok_def)

lemma spec_forward_multiplier_block:
  "3 * k \<le> t \<Longrightarrow> t < 3 * k + 3 \<Longrightarrow>
   spec_forward_multiplier (t div channels) = spec_forward_multiplier k"
  using div3 [of k t] by (simp add: channels_def)

lemma spec_forward_multiplier_tail:
  assumes "21 \<le> t"
  shows "spec_forward_multiplier (t div channels) = CINFTY"
proof -
  have "7 \<le> t div 3" using assms by linarith
  then show ?thesis by (simp add: spec_forward_multiplier_def channels_def)
qed

lemma row_forward_correct:
  assumes "7 \<le> n" and "length input_row = channels * n"
    and "base + channels * n \<le> length a0" and "int (channels * n) \<le> INT_MAX"
  shows "\<exists>s'. row_forward_substitution F r input_row (int ((n - 7) * channels))
                 (a0, int base, int base, 0) = Some s' \<and>
              row_fwd_st F r input_row base a0 (channels * n) s'"
proof -
  let ?I = "row_fwd_st F r input_row base a0"
  have ch: "channels = 3" by (simp add: channels_def)
  have n3: "21 \<le> 3 * n" using assms(1) by simp
  have len: "length input_row = 3 * n" "base + 3 * n \<le> length a0"
    using assms(2,3) by (simp_all add: ch)
  have c3: "(1::int) \<le> 3" "(3::int) \<le> INT_MAX" by (simp_all add: INT_MAX_def)
  obtain s1 where s1: "do_while_dec (int channels) (first_entry F r input_row)
                         (a0, int base, int base, 0) = Some s1" "?I 3 s1"
    using first_block [OF row_fwd_st_init, of base a0 input_row F r] len n3 by (auto simp: ch)
  have blk: "\<exists>s'. do_while_dec (int channels) (forward_entry F r input_row K) s = Some s' \<and>
                  ?I (3 * k + 3) s'"
    if "?I (3 * k) s" "1 \<le> k" "k \<le> 6" "spec_forward_multiplier k = K" for s k K
  proof -
    have "\<exists>s'. do_while_dec 3 (forward_entry F r input_row K) s = Some s' \<and>
                ?I (3 * k + nat 3) s'"
    proof (rule forward_block [OF that(1)])
      show "spec_forward_multiplier (t div channels) = K" if "3 * k \<le> t" "t < 3 * k + nat 3" for t
        using spec_forward_multiplier_block [of k t] that \<open>spec_forward_multiplier k = K\<close> by simp
    qed (use that len n3 c3 in \<open>auto simp: ch\<close>)
    then show ?thesis by (simp add: ch)
  qed
  obtain s2 where s2: "do_while_dec (int channels) (forward_entry F r input_row C0) s1 = Some s2"
      "?I 6 s2"
    using blk [of 1 s1 C0] s1(2) by (auto simp: spec_forward_multiplier_def)
  obtain s3 where s3: "do_while_dec (int channels) (forward_entry F r input_row C1) s2 = Some s3"
      "?I 9 s3"
    using blk [of 2 s2 C1] s2(2) by (auto simp: spec_forward_multiplier_def)
  obtain s4 where s4: "do_while_dec (int channels) (forward_entry F r input_row C2) s3 = Some s4"
      "?I 12 s4"
    using blk [of 3 s3 C2] s3(2) by (auto simp: spec_forward_multiplier_def)
  obtain s5 where s5: "do_while_dec (int channels) (forward_entry F r input_row C3) s4 = Some s5"
      "?I 15 s5"
    using blk [of 4 s4 C3] s4(2) by (auto simp: spec_forward_multiplier_def)
  obtain s6 where s6: "do_while_dec (int channels) (forward_entry F r input_row C4) s5 = Some s6"
      "?I 18 s6"
    using blk [of 5 s5 C4] s5(2) by (auto simp: spec_forward_multiplier_def)
  obtain s7 where s7: "do_while_dec (int channels) (forward_entry F r input_row C5) s6 = Some s7"
      "?I 21 s7"
    using blk [of 6 s6 C5] s6(2) by (auto simp: spec_forward_multiplier_def)
  have "\<exists>s'. while_dec (int ((n - 7) * channels)) (forward_entry F r input_row CINFTY) s7 = Some s' \<and>
              ?I (21 + nat (int ((n - 7) * channels))) s'"
  proof (rule forward_tail [OF s7(2)])
    show "spec_forward_multiplier (t div channels) = CINFTY" if "21 \<le> t" for t
      using spec_forward_multiplier_tail [OF that] .
  qed (use len n3 assms(1,4) in \<open>auto simp: ch\<close>)
  moreover have "21 + nat (int ((n - 7) * channels)) = channels * n"
    using assms(1) by (simp add: ch)
  ultimately obtain s8 where
    s8: "while_dec (int ((n - 7) * channels)) (forward_entry F r input_row CINFTY) s7 = Some s8"
      "?I (channels * n) s8"
    by auto
  show ?thesis
    unfolding row_forward_substitution_def using s1 s2 s3 s4 s5 s6 s7 s8 by simp
qed

lemma back_ok_step:
  assumes "back_ok d K L base N dn af a" and "0 < d" and "base + N \<le> length a"
    and "p0 < N" and "\<not> dn p0" and "p0 + d < N \<Longrightarrow> dn (p0 + d)"
    and "v = (if N \<le> p0 + d then a ! (base + p0) * L
              else (a ! (base + p0) - a ! (base + p0 + d)) * K (p0 div d))"
    and "\<And>p. dn' p \<longleftrightarrow> p = p0 \<or> dn p"
  shows "back_ok d K L base N dn' af (a[base + p0 := v])"
proof -
  have len: "length a = length af"
    and out: "\<And>q. q < length a \<Longrightarrow> q < base \<or> base + N \<le> q \<Longrightarrow> a ! q = af ! q"
    and undone: "\<And>p. p < N \<Longrightarrow> \<not> dn p \<Longrightarrow> a ! (base + p) = af ! (base + p)"
    and dnf: "\<And>p. p < N \<Longrightarrow> dn p \<Longrightarrow> a ! (base + p) =
          (if N \<le> p + d then af ! (base + p) * L
           else (af ! (base + p) - a ! (base + p + d)) * K (p div d))"
    and closed: "\<And>p. dn p \<Longrightarrow> p + d < N \<Longrightarrow> dn (p + d)"
    using assms(1) by (auto simp: back_ok_def)
  let ?a = "a[base + p0 := v]"
  have 1: "?a ! q = af ! q" if "q < length ?a" "q < base \<or> base + N \<le> q" for q
    using that out [of q] assms(4) by (auto simp: nth_list_update)
  have 2: "?a ! (base + p) = af ! (base + p)" if "p < N" "\<not> dn' p" for p
    using that undone [of p] assms(8) [of p] by (auto simp: nth_list_update)
  have 3: "?a ! (base + p) =
          (if N \<le> p + d then af ! (base + p) * L
           else (af ! (base + p) - ?a ! (base + p + d)) * K (p div d))" if "p < N" "dn' p" for p
  proof (cases "p = p0")
    case True
    have e1: "?a ! (base + p0) = v" using assms(3,4) by simp
    have e2: "?a ! (base + p0 + d) = a ! (base + p0 + d)"
      using assms(2) by (simp add: nth_list_update)
    have e3: "a ! (base + p0) = af ! (base + p0)"
      using undone [OF assms(4,5)] .
    have "?a ! (base + p) = v" using e1 True by simp
    also have "v = (if N \<le> p0 + d then af ! (base + p0) * L
           else (af ! (base + p0) - a ! (base + p0 + d)) * K (p0 div d))"
      by (simp only: assms(7) e3)
    also have "\<dots> = (if N \<le> p + d then af ! (base + p) * L
           else (af ! (base + p) - ?a ! (base + p + d)) * K (p div d))"
      by (simp only: True e2)
    finally show ?thesis .
  next
    case False
    then have dnp: "dn p" using that(2) assms(8) [of p] by simp
    have a: "?a ! (base + p) = a ! (base + p)" using False by (simp add: nth_list_update)
    show ?thesis
    proof (cases "N \<le> p + d")
      case True
      then show ?thesis using a dnf [OF that(1) dnp] by simp
    next
      case False
      then have "dn (p + d)" using closed [OF dnp] by simp
      then have "p + d \<noteq> p0" using assms(5) by auto
      then have "?a ! (base + p + d) = a ! (base + p + d)" by (simp add: nth_list_update)
      then show ?thesis using a dnf [OF that(1) dnp] False by simp
    qed
  qed
  have 4: "dn' (p + d)" if "dn' p" "p + d < N" for p
    using that assms(6,8) closed [of p] by (cases "p = p0") auto
  show ?thesis
    unfolding back_ok_def using len 1 2 3 4 by simp
qed

lemma row_back_ok_step:
  assumes "row_back_ok F base N t af a" and "base + N \<le> length a" and "t < N"
    and "v = (if t < channels then a ! (base + (N - 1 - t)) * of_lit F (lu_value CLAST)
              else (a ! (base + (N - 1 - t)) - a ! (base + (N - 1 - t) + channels))
                     * back_K F ((N - 1 - t) div channels))"
  shows "row_back_ok F base N (Suc t) af (a[base + (N - 1 - t) := v])"
  unfolding row_back_ok_def
proof (rule back_ok_step [OF assms(1) [unfolded row_back_ok_def]])
  show "v = (if N \<le> N - 1 - t + channels then a ! (base + (N - 1 - t)) * of_lit F (lu_value CLAST)
             else (a ! (base + (N - 1 - t)) - a ! (base + (N - 1 - t) + channels))
                    * back_K F ((N - 1 - t) div channels))"
  proof -
    have "N \<le> N - 1 - t + channels \<longleftrightarrow> t < channels" using assms(3) by auto
    then show ?thesis using assms(4) by simp
  qed
qed (use assms in \<open>auto simp: channels_def\<close>)

lemma last_entry_step:
  assumes "row_last_st F base N af t s" and "t < channels" and "t < N"
    and "base + N \<le> length af"
  shows "\<exists>s'. last_entry F s = Some s' \<and> row_last_st F base N af (Suc t) s'"
proof -
  obtain a p1 p2 ip where s: "s = (a, p1, p2, ip)" by (cases s)
  from assms(1) have ok: "row_back_ok F base N t af a"
    and p: "int base + int N = p1 + 1 + int t" "p2 = int base + int N - int channels" "ip = int N"
    by (simp_all add: s row_last_st_def)
  have len: "length a = length af" using ok by (simp add: row_back_ok_def back_ok_def)
  have p1: "p1 = int (base + (N - 1 - t))" using p(1) assms(3) by simp
  have inb: "base + (N - 1 - t) < length a" using assms(3,4) len by simp
  let ?v = "a ! (base + (N - 1 - t)) * of_lit F (lu_value CLAST)"
  have "last_entry F s = Some (a[base + (N - 1 - t) := ?v], p1 - 1, p2, ip)"
    using inb deref_nat [of "base + (N - 1 - t)" a] store_nat [of "base + (N - 1 - t)" a ?v]
    unfolding s p1 last_entry_def by simp
  moreover have "row_back_ok F base N (Suc t) af (a[base + (N - 1 - t) := ?v])"
    using ok assms len by (intro row_back_ok_step) auto
  ultimately show ?thesis
    using p by (simp add: row_last_st_def)
qed

lemma back_entry_step:
  assumes "row_back_st F base N af t s" and "channels \<le> t" and "t < N"
    and "base + N \<le> length af" and "spec_back_multiplier ((N - 1 - t) div channels) = K"
  shows "\<exists>s'. back_entry F K s = Some s' \<and> row_back_st F base N af (Suc t) s'"
proof -
  obtain a p1 p2 ip where s: "s = (a, p1, p2, ip)" by (cases s)
  from assms(1) have ok: "row_back_ok F base N t af a"
    and p: "int base + int N = p1 + 1 + int t" "p2 = p1 + int channels" "ip = int N"
    by (simp_all add: s row_back_st_def)
  have len: "length a = length af" using ok by (simp add: row_back_ok_def back_ok_def)
  have p1: "p1 = int (base + (N - 1 - t))" using p(1) assms(3) by simp
  have p2: "p2 = int (base + (N - 1 - t) + channels)" using p(2) p1 by simp
  have inb: "base + (N - 1 - t) < length a" "base + (N - 1 - t) + channels < length a"
    using assms(2,3,4) len by auto
  let ?v = "(a ! (base + (N - 1 - t)) - a ! (base + (N - 1 - t) + channels))
              * back_K F ((N - 1 - t) div channels)"
  have "back_entry F K s = Some (a[base + (N - 1 - t) := ?v], p1 - 1, p2 - 1, ip)"
    using inb deref_nat [of "base + (N - 1 - t)" a] deref_nat [of "base + (N - 1 - t) + channels" a]
      store_nat [of "base + (N - 1 - t)" a ?v] assms(5)
    unfolding s p1 p2 back_entry_def back_K_def by simp
  moreover have "row_back_ok F base N (Suc t) af (a[base + (N - 1 - t) := ?v])"
    using ok assms len by (intro row_back_ok_step) auto
  ultimately show ?thesis
    using p by (simp add: row_back_st_def)
qed

lemma last_block:
  assumes "row_last_st F base N af 0 s" and "channels \<le> N" and "base + N \<le> length af"
  shows "\<exists>s'. do_while_dec (int channels) (last_entry F) s = Some s' \<and>
              row_last_st F base N af channels s'"
proof -
  have "\<exists>s'. do_while_dec (int channels) (last_entry F) s = Some s' \<and>
              row_last_st F base N af (nat (int channels)) s'"
  proof (rule do_while_dec_rule [where P = "\<lambda>j. row_last_st F base N af j"])
    show "\<exists>t'. last_entry F t = Some t' \<and> row_last_st F base N af (Suc j) t'"
      if "j < nat (int channels)" "row_last_st F base N af j t" for j t
      using last_entry_step [OF that(2)] assms(2,3) that(1) by auto
  qed (use assms in \<open>auto simp: channels_def INT_MAX_def\<close>)
  then show ?thesis by simp
qed

lemma back_block:
  assumes "row_back_st F base N af t0 s" and "channels \<le> t0"
    and "\<And>t. t0 \<le> t \<Longrightarrow> t < t0 + nat c \<Longrightarrow>
            spec_back_multiplier ((N - 1 - t) div channels) = K"
    and "t0 + nat c \<le> N" and "base + N \<le> length af"
    and "1 \<le> c" and "c \<le> INT_MAX"
  shows "\<exists>s'. do_while_dec c (back_entry F K) s = Some s' \<and>
              row_back_st F base N af (t0 + nat c) s'"
proof (rule do_while_dec_rule [where P = "\<lambda>j. row_back_st F base N af (t0 + j)"])
  show "row_back_st F base N af (t0 + 0) s" using assms(1) by simp
  show "\<exists>t'. back_entry F K t = Some t' \<and> row_back_st F base N af (t0 + Suc j) t'"
    if "j < nat c" "row_back_st F base N af (t0 + j) t" for j t
    using back_entry_step [OF that(2), of K] assms(2,4,5) assms(3) [of "t0 + j"] that(1)
    by auto
qed (use assms in auto)

lemma back_tail:
  assumes "row_back_st F base N af t0 s" and "channels \<le> t0"
    and "\<And>t. t0 \<le> t \<Longrightarrow> t < t0 + nat c \<Longrightarrow>
            spec_back_multiplier ((N - 1 - t) div channels) = K"
    and "t0 + nat c \<le> N" and "base + N \<le> length af"
    and "0 \<le> c" and "c \<le> INT_MAX"
  shows "\<exists>s'. while_dec c (back_entry F K) s = Some s' \<and>
              row_back_st F base N af (t0 + nat c) s'"
proof (rule while_dec_rule [where P = "\<lambda>j. row_back_st F base N af (t0 + j)"])
  show "row_back_st F base N af (t0 + 0) s" using assms(1) by simp
  show "\<exists>t'. back_entry F K t = Some t' \<and> row_back_st F base N af (t0 + Suc j) t'"
    if "j < nat c" "row_back_st F base N af (t0 + j) t" for j t
    using back_entry_step [OF that(2), of K] assms(2,4,5) assms(3) [of "t0 + j"] that(1)
    by auto
qed (use assms in auto)

lemma row_back_ok_init: "row_back_ok F base N 0 af af"
  by (simp add: row_back_ok_def back_ok_def)

lemma spec_back_multiplier_block:
  assumes "3 * k \<le> q" and "q < 3 * k + 3"
  shows "spec_back_multiplier (q div channels) = spec_back_multiplier k"
  using div3 [OF assms] by (simp add: channels_def)

lemma spec_back_multiplier_tail:
  assumes "18 \<le> q"
  shows "spec_back_multiplier (q div channels) = CINFTY"
proof -
  have "6 \<le> q div 3" using assms by linarith
  then show ?thesis by (simp add: spec_back_multiplier_def channels_def)
qed

lemma row_back_correct:
  assumes "7 \<le> n" and "base + channels * n \<le> length af" and "int (channels * n) \<le> INT_MAX"
  shows "\<exists>s'. row_back_substitution F (int ((n - 7) * channels))
                 (af, int base + int (channels * n),
                  int base + int (channels * n - channels), int (channels * n)) = Some s' \<and>
              row_back_st F base (channels * n) af (channels * n) s'"
proof -
  let ?N = "3 * n"
  let ?L = "row_last_st F base ?N af"
  let ?I = "row_back_st F base ?N af"
  have ch: "channels = 3" by (simp add: channels_def)
  have n3: "21 \<le> ?N" using assms(1) by simp
  have len: "base + ?N \<le> length af" using assms(2) by (simp add: ch)
  have c3: "(1::int) \<le> 3" "(3::int) \<le> INT_MAX" by (simp_all add: INT_MAX_def)
  have "?L 0 (af, int base + int ?N - 1, int base + int (?N - 3), int ?N)"
    using n3 by (simp add: row_last_st_def row_back_ok_init ch)
  from last_block [OF this] len n3
  obtain s1 where s1: "do_while_dec (int channels) (last_entry F)
       (af, int base + int ?N - 1, int base + int (?N - 3), int ?N) = Some s1" "?L 3 s1"
    by (auto simp: ch)
  obtain a p1 p2 ip where s1_eq: "s1 = (a, p1, p2, ip)" by (cases s1)
  have i3: "?I 3 (a, p1, p2 + (int channels - 1), ip)"
    using s1(2) by (simp add: s1_eq row_last_st_def row_back_st_def ch)
  have ex: "\<exists>s'. while_dec (int ((n - 7) * channels)) (back_entry F CINFTY)
               (a, p1, p2 + (int channels - 1), ip) = Some s' \<and>
              ?I (3 + nat (int ((n - 7) * channels))) s'"
  proof (rule back_tail [OF i3])
    show "spec_back_multiplier ((?N - 1 - t) div channels) = CINFTY"
      if "3 \<le> t" "t < 3 + nat (int ((n - 7) * channels))" for t
    proof -
      have "18 \<le> ?N - 1 - t" using that assms(1) by (simp add: ch)
      then show ?thesis by (rule spec_back_multiplier_tail)
    qed
  qed (use len n3 assms(1,3) in \<open>auto simp: ch\<close>)
  have eq: "3 + nat (int ((n - 7) * channels)) = ?N - 18"
    using assms(1) by (simp add: ch)
  from ex [unfolded eq] obtain s2 where
    s2: "while_dec (int ((n - 7) * channels)) (back_entry F CINFTY)
           (a, p1, p2 + (int channels - 1), ip) = Some s2" "?I (?N - 18) s2"
    by blast
  have blk: "\<exists>s'. do_while_dec (int channels) (back_entry F K) s = Some s' \<and> ?I (?N - 3 * k) s'"
    if "?I (?N - 3 * k - 3) s" "k \<le> 5" "spec_back_multiplier k = K" for s k K
  proof -
    have "\<exists>s'. do_while_dec 3 (back_entry F K) s = Some s' \<and> ?I (?N - 3 * k - 3 + nat 3) s'"
    proof (rule back_block [OF that(1)])
      show "spec_back_multiplier ((?N - 1 - t) div channels) = K"
        if "?N - 3 * k - 3 \<le> t" "t < ?N - 3 * k - 3 + nat 3" for t
      proof -
        have "3 * k \<le> ?N - 1 - t" "?N - 1 - t < 3 * k + 3"
          using that n3 \<open>k \<le> 5\<close> by auto
        from spec_back_multiplier_block [OF this] \<open>spec_back_multiplier k = K\<close>
        show ?thesis by simp
      qed
    qed (use that len n3 c3 in \<open>auto simp: ch\<close>)
    moreover have "?N - 3 * k - 3 + nat 3 = ?N - 3 * k" using n3 that(2) by auto
    ultimately show ?thesis by (simp add: ch)
  qed
  obtain s3 where s3: "do_while_dec (int channels) (back_entry F C5) s2 = Some s3" "?I (?N - 15) s3"
    using blk [of 5 s2 C5] s2(2) by (auto simp: spec_back_multiplier_def)
  obtain s4 where s4: "do_while_dec (int channels) (back_entry F C4) s3 = Some s4" "?I (?N - 12) s4"
    using blk [of 4 s3 C4] s3(2) by (auto simp: spec_back_multiplier_def)
  obtain s5 where s5: "do_while_dec (int channels) (back_entry F C3) s4 = Some s5" "?I (?N - 9) s5"
    using blk [of 3 s4 C3] s4(2) by (auto simp: spec_back_multiplier_def)
  obtain s6 where s6: "do_while_dec (int channels) (back_entry F C2) s5 = Some s6" "?I (?N - 6) s6"
    using blk [of 2 s5 C2] s5(2) by (auto simp: spec_back_multiplier_def)
  obtain s7 where s7: "do_while_dec (int channels) (back_entry F C1) s6 = Some s7" "?I (?N - 3) s7"
    using blk [of 1 s6 C1] s6(2) by (auto simp: spec_back_multiplier_def)
  obtain s8 where s8: "do_while_dec (int channels) (back_entry F C0) s7 = Some s8" "?I ?N s8"
    using blk [of 0 s7 C0] s7(2) by (auto simp: spec_back_multiplier_def)
  have "row_back_substitution F (int ((n - 7) * channels))
          (af, int base + int ?N, int base + int (?N - 3), int ?N) = Some s8"
    unfolding row_back_substitution_def using s1 s1_eq s2 s3 s4 s5 s6 s7 s8 by simp
  then show ?thesis using s8(2) by (simp add: ch)
qed

lemma col_forward_entry_step:
  assumes "col_fwd_st F d a0 t s" and "0 < d" and "d \<le> t" and "t < length a0"
    and "spec_forward_multiplier (t div d) = K"
  shows "\<exists>s'. col_forward_entry F K s = Some s' \<and> col_fwd_st F d a0 (Suc t) s'"
proof -
  obtain a p1 p2 ip where s: "s = (a, p1, p2, ip)" by (cases s)
  from assms(1) have ok: "fwd_ok (\<lambda>p. a0 ! p) d (fwd_K F) 0 t a0 a"
    and p: "p1 = int t" "p2 = int (t - d)" "ip = 0"
    using assms(3) by (simp_all add: s col_fwd_st_def)
  have len: "length a = length a0" using ok by (simp add: fwd_ok_def)
  have cur: "a ! t = a0 ! t"
    using ok assms(4) by (simp add: fwd_ok_def)
  let ?v = "a0 ! t - a ! (0 + t - d) * fwd_K F (t div d)"
  have "col_forward_entry F K s = Some (a[t := ?v], p1 + 1, p2 + 1, ip)"
    using assms(3,4,5) len cur deref_nat [of t a] deref_nat [of "t - d" a] store_nat [of t a ?v]
    unfolding s p col_forward_entry_def fwd_K_def by simp
  moreover have "fwd_ok (\<lambda>p. a0 ! p) d (fwd_K F) 0 (Suc t) a0 (a[0 + t := ?v])"
    using ok assms(2,3,4) len by (intro fwd_ok_step) auto
  ultimately show ?thesis
    using p assms(3) by (simp add: col_fwd_st_def)
qed

lemma div_row: "0 < d \<Longrightarrow> k * d \<le> t \<Longrightarrow> t < k * d + d \<Longrightarrow> t div d = (k::nat)"
  by (metis add.commute div_mult_self3 div_less le_add_diff_inverse2 less_diff_conv2 mult.commute
        nat_less_le not_gr_zero add_0 div_nat_eqI mult_Suc)

lemma col_forward_block:
  assumes "col_fwd_st F d a0 (k * d) s" and "0 < d" and "1 \<le> k"
    and "k * d + d \<le> length a0" and "int d \<le> INT_MAX"
  shows "\<exists>s'. do_while_dec (int d) (col_forward_entry F (spec_forward_multiplier k)) s = Some s' \<and>
              col_fwd_st F d a0 (Suc k * d) s'"
proof -
  have "\<exists>s'. do_while_dec (int d) (col_forward_entry F (spec_forward_multiplier k)) s = Some s' \<and>
              col_fwd_st F d a0 (k * d + nat (int d)) s'"
  proof (rule do_while_dec_rule [where P = "\<lambda>j. col_fwd_st F d a0 (k * d + j)"])
    show "col_fwd_st F d a0 (k * d + 0) s" using assms(1) by simp
    show "\<exists>t'. col_forward_entry F (spec_forward_multiplier k) t = Some t' \<and>
                col_fwd_st F d a0 (k * d + Suc j) t'"
      if "j < nat (int d)" "col_fwd_st F d a0 (k * d + j) t" for j t
    proof -
      have "(k * d + j) div d = k" using that(1) assms(2) by (intro div_row) auto
      moreover have "d \<le> k * d + j" using assms(3) by (simp add: trans_le_add1)
      ultimately show ?thesis
        using col_forward_entry_step [OF that(2) assms(2)] that(1) assms(4) by auto
    qed
  qed (use assms in auto)
  then show ?thesis by (simp add: add.commute)
qed

lemma col_forward_rows_correct:
  assumes "col_fwd_st F d a0 (i * d) s" and "7 \<le> i" and "i \<le> m" and "m * d \<le> length a0"
    and "0 < d" and "int d \<le> INT_MAX" and "int m \<le> INT_MAX"
  shows "\<exists>s'. col_forward_rows F (int m) (int d) (int i) s = Some (s', int m) \<and>
              col_fwd_st F d a0 (m * d) s'"
  using assms
proof (induction "m - i" arbitrary: i s)
  case 0
  then have "i = m" by simp
  then show ?case using "0.prems"(1) by (subst col_forward_rows.simps) simp
next
  case (Suc k)
  then have lt: "i < m" by simp
  have "Suc i * d \<le> m * d" using lt by (intro mult_le_mono1) simp
  then have "i * d + d \<le> length a0" using Suc.prems(4) by simp
  moreover have "spec_forward_multiplier i = CINFTY"
    using Suc.prems(2) by (simp add: spec_forward_multiplier_def)
  ultimately obtain s1 where s1: "do_while_dec (int d) (col_forward_entry F CINFTY) s = Some s1"
      "col_fwd_st F d a0 (Suc i * d) s1"
    using col_forward_block [OF Suc.prems(1) Suc.prems(5)] Suc.prems(2,6) by auto
  have inc: "int_add (int i) 1 = Some (int (Suc i))"
    using lt Suc.prems(7) INT_MIN_neg by (simp add: int_add_def)
  have "\<exists>s'. col_forward_rows F (int m) (int d) (int (Suc i)) s1 = Some (s', int m) \<and>
              col_fwd_st F d a0 (m * d) s'"
    using Suc.hyps(2) Suc.prems lt by (intro Suc.hyps(1) s1(2)) auto
  then show ?case
    using s1(1) inc lt by (subst col_forward_rows.simps) simp
qed

lemma col_fwd_st_init: "0 < d \<Longrightarrow> col_fwd_st F d a0 (1 * d) (a0, int d, 0, 0)"
  by (simp add: col_fwd_st_def fwd_ok_def)

lemma column_forward_correct:
  assumes "7 \<le> m" and "m * d \<le> length a0" and "0 < d" and "int d \<le> INT_MAX"
    and "int m \<le> INT_MAX"
  shows "\<exists>s'. column_forward_substitution F (int m) (int d) a0 = Some (s', int m) \<and>
              col_fwd_st F d a0 (m * d) s'"
proof -
  let ?I = "col_fwd_st F d a0"
  have blk: "\<exists>s'. do_while_dec (int d) (col_forward_entry F K) s = Some s' \<and> ?I (k' * d) s'"
    if "?I (k * d) s" "1 \<le> k" "k \<le> 6" "spec_forward_multiplier k = K" "k' = Suc k" for s k K k'
  proof -
    have "Suc k * d \<le> m * d" using that(3) assms(1) by (intro mult_le_mono1) simp
    then have "k * d + d \<le> length a0" using assms(2) by simp
    from col_forward_block [OF that(1) assms(3) that(2) this assms(4)] that(4,5)
    show ?thesis by simp
  qed
  have "\<exists>s'. do_while_dec (int d) (col_forward_entry F C0) (a0, int d, 0, 0) = Some s' \<and>
          ?I (2 * d) s'"
    using col_fwd_st_init [OF assms(3), of F a0]
    by (intro blk [of 1 _ C0 2]) (simp_all add: spec_forward_multiplier_def)
  then obtain s1 where s1: "do_while_dec (int d) (col_forward_entry F C0) (a0, int d, 0, 0) = Some s1"
      "?I (2 * d) s1"
    by blast
  have "\<exists>s'. do_while_dec (int d) (col_forward_entry F C1) s1 = Some s' \<and> ?I (3 * d) s'"
    using s1(2) by (intro blk [of 2 _ C1 3]) (simp_all add: spec_forward_multiplier_def)
  then obtain s2 where s2: "do_while_dec (int d) (col_forward_entry F C1) s1 = Some s2"
      "?I (3 * d) s2"
    by blast
  have "\<exists>s'. do_while_dec (int d) (col_forward_entry F C2) s2 = Some s' \<and> ?I (4 * d) s'"
    using s2(2) by (intro blk [of 3 _ C2 4]) (simp_all add: spec_forward_multiplier_def)
  then obtain s3 where s3: "do_while_dec (int d) (col_forward_entry F C2) s2 = Some s3"
      "?I (4 * d) s3"
    by blast
  have "\<exists>s'. do_while_dec (int d) (col_forward_entry F C3) s3 = Some s' \<and> ?I (5 * d) s'"
    using s3(2) by (intro blk [of 4 _ C3 5]) (simp_all add: spec_forward_multiplier_def)
  then obtain s4 where s4: "do_while_dec (int d) (col_forward_entry F C3) s3 = Some s4"
      "?I (5 * d) s4"
    by blast
  have "\<exists>s'. do_while_dec (int d) (col_forward_entry F C4) s4 = Some s' \<and> ?I (6 * d) s'"
    using s4(2) by (intro blk [of 5 _ C4 6]) (simp_all add: spec_forward_multiplier_def)
  then obtain s5 where s5: "do_while_dec (int d) (col_forward_entry F C4) s4 = Some s5"
      "?I (6 * d) s5"
    by blast
  have "\<exists>s'. do_while_dec (int d) (col_forward_entry F C5) s5 = Some s' \<and> ?I (7 * d) s'"
    using s5(2) by (intro blk [of 6 _ C5 7]) (simp_all add: spec_forward_multiplier_def)
  then obtain s6 where s6: "do_while_dec (int d) (col_forward_entry F C5) s5 = Some s6"
      "?I (7 * d) s6"
    by blast
  have "\<exists>s'. col_forward_rows F (int m) (int d) (int 7) s6 = Some (s', int m) \<and> ?I (m * d) s'"
    using s6(2) assms by (intro col_forward_rows_correct) simp_all
  then obtain s7 where s7: "col_forward_rows F (int m) (int d) 7 s6 = Some (s7, int m)" "?I (m * d) s7"
    by auto
  show ?thesis
    unfolding column_forward_substitution_def using s1 s2 s3 s4 s5 s6 s7 by simp
qed

lemma back_ok_cong:
  assumes "\<And>p. dn p = dn' p"
  shows "back_ok d K L base N dn af a = back_ok d K L base N dn' af a"
proof -
  have "dn = dn'" using assms by (rule ext)
  then show ?thesis by simp
qed

lemma row_in_grid:
  assumes "i0 < (m::nat)" and "j < d"
  shows "i0 * d + j < m * d"
proof -
  have "i0 * d + j < Suc i0 * d" using assms(2) by simp
  also have "\<dots> \<le> m * d" using assms(1) by (intro mult_le_mono1) simp
  finally show ?thesis .
qed

lemma col_back_ok_step:
  assumes "col_back_ok F d m i0 j af a" and "0 < d" and "m * d \<le> length a"
    and "i0 < m" and "j < d"
    and "v = (if m \<le> Suc i0 then a ! (i0 * d + j) * of_lit F (lu_value CLAST)
              else (a ! (i0 * d + j) - a ! (i0 * d + j + d)) * back_K F i0)"
  shows "col_back_ok F d m i0 (Suc j) af (a[i0 * d + j := v])"
proof -
  let ?p0 = "i0 * d + j"
  have p0: "?p0 < m * d" using assms(4,5) by (rule row_in_grid)
  have dv: "?p0 div d = i0" using assms(2,5) by (intro div_row) auto
  have last: "m * d \<le> ?p0 + d \<longleftrightarrow> m \<le> Suc i0"
  proof
    assume "m * d \<le> ?p0 + d"
    then have "m * d < Suc (Suc i0) * d" using assms(5) by simp
    then have "m < Suc (Suc i0)" by (simp only: mult_less_cancel2)
    then show "m \<le> Suc i0" by simp
  next
    assume "m \<le> Suc i0"
    then have "m * d \<le> Suc i0 * d" by (intro mult_le_mono1)
    then show "m * d \<le> ?p0 + d" by simp
  qed
  have "back_ok d (back_K F) (of_lit F (lu_value CLAST)) 0 (m * d) (col_dn d i0 (Suc j)) af
          (a[0 + ?p0 := v])"
  proof (rule back_ok_step [OF assms(1) [unfolded col_back_ok_def] assms(2)])
    show "0 + m * d \<le> length a" using assms(3) by simp
    show "?p0 < m * d" by (rule p0)
    show "\<not> col_dn d i0 j ?p0" using assms(5) by (simp add: col_dn_def)
    show "col_dn d i0 j (?p0 + d)" by (simp add: col_dn_def)
    show "v = (if m * d \<le> ?p0 + d then a ! (0 + ?p0) * of_lit F (lu_value CLAST)
               else (a ! (0 + ?p0) - a ! (0 + ?p0 + d)) * back_K F (?p0 div d))"
      using assms(6) unfolding dv last by simp
    show "col_dn d i0 (Suc j) p \<longleftrightarrow> p = ?p0 \<or> col_dn d i0 j p" for p
      using assms(5) by (auto simp: col_dn_def)
  qed
  then show ?thesis by (simp add: col_back_ok_def)
qed

lemma col_last_entry_step:
  assumes "col_last_st F d m af j s" and "0 < d" and "1 \<le> m" and "m * d \<le> length af"
    and "j < d"
  shows "\<exists>s'. col_last_entry F s = Some s' \<and> col_last_st F d m af (Suc j) s'"
proof -
  obtain a p1 p2 ip where s: "s = (a, p1, p2, ip)" by (cases s)
  from assms(1) have ok: "col_back_ok F d m (m - 1) j af a"
    and p: "p1 = int ((m - 1) * d + j)" "p2 = int ((m - 1) * d)" "ip = 0"
    by (simp_all add: s col_last_st_def)
  have len: "length a = length af" using ok by (simp add: col_back_ok_def back_ok_def)
  have inb: "(m - 1) * d + j < length a"
    using row_in_grid [of "m - 1" m j d] assms(3,4,5) len by simp
  let ?v = "a ! ((m - 1) * d + j) * of_lit F (lu_value CLAST)"
  have "col_last_entry F s = Some (a[(m - 1) * d + j := ?v], p1 + 1, p2, ip)"
    using inb deref_nat [of "(m - 1) * d + j" a] store_nat [of "(m - 1) * d + j" a ?v]
    unfolding s p col_last_entry_def by simp
  moreover have "col_back_ok F d m (m - 1) (Suc j) af (a[(m - 1) * d + j := ?v])"
    using ok assms len by (intro col_back_ok_step) auto
  ultimately show ?thesis
    using p by (simp add: col_last_st_def)
qed

lemma col_back_entry_step:
  assumes "col_back_st F d m af i0 j s" and "0 < d" and "Suc i0 < m" and "m * d \<le> length af"
    and "j < d" and "spec_back_multiplier i0 = K"
  shows "\<exists>s'. col_back_entry F K s = Some s' \<and> col_back_st F d m af i0 (Suc j) s'"
proof -
  obtain a p1 p2 ip where s: "s = (a, p1, p2, ip)" by (cases s)
  from assms(1) have ok: "col_back_ok F d m i0 j af a"
    and p: "p1 = int (i0 * d + j)" "p2 = int (i0 * d + j + d)" "ip = 0"
    by (simp_all add: s col_back_st_def add.commute add.left_commute)
  have len: "length a = length af" using ok by (simp add: col_back_ok_def back_ok_def)
  have "Suc i0 * d + j < m * d" using assms(3,5) by (rule row_in_grid)
  then have inb: "i0 * d + j < length a" "i0 * d + j + d < length a"
    using assms(4) len by (simp_all add: add.commute add.left_commute)
  let ?v = "(a ! (i0 * d + j) - a ! (i0 * d + j + d)) * back_K F i0"
  have "col_back_entry F K s = Some (a[i0 * d + j := ?v], p1 + 1, p2 + 1, ip)"
    using inb deref_nat [of "i0 * d + j" a] deref_nat [of "i0 * d + j + d" a]
      store_nat [of "i0 * d + j" a ?v] assms(6)
    unfolding s p col_back_entry_def back_K_def by simp
  moreover have "col_back_ok F d m i0 (Suc j) af (a[i0 * d + j := ?v])"
    using ok assms len by (intro col_back_ok_step) auto
  ultimately show ?thesis
    using p by (simp add: col_back_st_def add.commute add.left_commute)
qed

lemma col_last_block:
  assumes "col_last_st F d m af 0 s" and "0 < d" and "1 \<le> m" and "m * d \<le> length af"
    and "int d \<le> INT_MAX"
  shows "\<exists>s'. do_while_dec (int d) (col_last_entry F) s = Some s' \<and> col_last_st F d m af d s'"
proof -
  have "\<exists>s'. do_while_dec (int d) (col_last_entry F) s = Some s' \<and>
              col_last_st F d m af (nat (int d)) s'"
  proof (rule do_while_dec_rule [where P = "\<lambda>j. col_last_st F d m af j"])
    show "\<exists>t'. col_last_entry F t = Some t' \<and> col_last_st F d m af (Suc j) t'"
      if "j < nat (int d)" "col_last_st F d m af j t" for j t
      using col_last_entry_step [OF that(2) assms(2,3,4)] that(1) by simp
  qed (use assms in auto)
  then show ?thesis by simp
qed

lemma col_back_block:
  assumes "col_back_st F d m af i0 0 s" and "0 < d" and "Suc i0 < m" and "m * d \<le> length af"
    and "int d \<le> INT_MAX"
  shows "\<exists>s'. do_while_dec (int d) (col_back_entry F (spec_back_multiplier i0)) s = Some s' \<and>
              col_back_st F d m af i0 d s'"
proof -
  have "\<exists>s'. do_while_dec (int d) (col_back_entry F (spec_back_multiplier i0)) s = Some s' \<and>
              col_back_st F d m af i0 (nat (int d)) s'"
  proof (rule do_while_dec_rule [where P = "\<lambda>j. col_back_st F d m af i0 j"])
    show "\<exists>t'. col_back_entry F (spec_back_multiplier i0) t = Some t' \<and>
                col_back_st F d m af i0 (Suc j) t'"
      if "j < nat (int d)" "col_back_st F d m af i0 j t" for j t
      using col_back_entry_step [OF that(2) assms(2,3,4) _ refl] that(1) by simp
  qed (use assms in auto)
  then show ?thesis by simp
qed

lemma col_back_next_row:
  assumes "col_back_st F d m af i0 d (a, p1, p2, ip)" and "1 \<le> i0"
  shows "col_back_st F d m af (i0 - 1) 0 (a, p1 - int (2 * d), p2 - int (2 * d), ip)"
proof -
  have "col_dn d i0 d p = col_dn d (i0 - 1) 0 p" for p
  proof -
    have "(i0 - 1) * d + d = i0 * d" using assms(2) by (cases i0) simp_all
    then show ?thesis by (auto simp: col_dn_def)
  qed
  then have "col_back_ok F d m i0 d af a = col_back_ok F d m (i0 - 1) 0 af a"
    unfolding col_back_ok_def by (rule back_ok_cong)
  moreover have "int (i0 * d + d) - int (2 * d) = int ((i0 - 1) * d)"
    "int (i0 * d + d + d) - int (2 * d) = int ((i0 - 1) * d + d)"
    using assms(2) by (cases i0; simp)+
  ultimately show ?thesis
    using assms(1) by (simp add: col_back_st_def)
qed

lemma col_last_next_row:
  assumes "col_last_st F d m af d (a, p1, p2, ip)" and "2 \<le> m"
  shows "col_back_st F d m af (m - 2) 0 (a, p1 - int (2 * d), p2, ip)"
proof -
  define m' where "m' = m - 2"
  have m': "m = Suc (Suc m')"
    using assms(2) by (simp add: m'_def)
  have e: "(m - 2) * d + d = (m - 1) * d" "(m - 1) * d + d = m * d"
    by (simp_all add: m')
  have "col_dn d (m - 1) d p = col_dn d (m - 2) 0 p" for p
    using e by (auto simp: col_dn_def)
  then have "col_back_ok F d m (m - 1) d af a = col_back_ok F d m (m - 2) 0 af a"
    unfolding col_back_ok_def by (rule back_ok_cong)
  moreover have "int ((m - 1) * d + d) - int (2 * d) = int ((m - 2) * d)"
    by (simp add: m')
  ultimately show ?thesis
    using assms(1) e(1) by (simp add: col_last_st_def col_back_st_def)
qed

lemma col_back_rows_correct:
  assumes "col_back_st F d m af i 0 s" and "5 \<le> i" and "Suc i < m" and "0 < d"
    and "m * d \<le> length af" and "int d \<le> INT_MAX" and "int m \<le> INT_MAX"
  shows "\<exists>s'. col_back_rows F (int d) (int (2 * d)) (int i) s = Some (s', 5) \<and>
              col_back_st F d m af 5 0 s'"
  using assms
proof (induction "i - 5" arbitrary: i s)
  case 0
  then have "i = 5" by simp
  then show ?case using "0.prems"(1) by (subst col_back_rows.simps) simp
next
  case (Suc k)
  then have gt: "5 < i" by simp
  have cinf: "spec_back_multiplier i = CINFTY"
    using gt by (simp add: spec_back_multiplier_def)
  from col_back_block [OF Suc.prems(1) Suc.prems(4) Suc.prems(3) Suc.prems(5) Suc.prems(6)]
  obtain s1 where s1: "do_while_dec (int d) (col_back_entry F CINFTY) s = Some s1"
      "col_back_st F d m af i d s1"
    unfolding cinf by blast
  obtain a p1 p2 ip where s1_eq: "s1 = (a, p1, p2, ip)" by (cases s1)
  have nxt: "col_back_st F d m af (i - 1) 0 (a, p1 - int (2 * d), p2 - int (2 * d), ip)"
    using s1(2) gt unfolding s1_eq by (intro col_back_next_row) auto
  have dec: "int_add (int i) (- 1) = Some (int (i - 1))"
    using gt Suc.prems(3,7) INT_MIN_neg by (simp add: int_add_def)
  have "\<exists>s'. col_back_rows F (int d) (int (2 * d)) (int (i - 1))
               (a, p1 - int (2 * d), p2 - int (2 * d), ip) = Some (s', 5) \<and>
              col_back_st F d m af 5 0 s'"
  proof (rule Suc.hyps(1) [OF _ nxt])
    show "k = i - 1 - 5" using Suc.hyps(2) by simp
    show "5 \<le> i - 1" using gt by simp
    show "Suc (i - 1) < m" using Suc.prems(3) gt by simp
  qed (use Suc.prems in auto)
  then show ?case
    using s1(1) s1_eq dec gt by (subst col_back_rows.simps) simp
qed

lemma col_last_st_init:
  assumes "1 \<le> m"
  shows "col_last_st F d m af 0 (af, int (m * d) - int d, int (m * d) - int d, 0)"
proof -
  obtain m' where m': "m = Suc m'" using assms by (cases m) auto
  have "col_back_ok F d m (m - 1) 0 af af"
    by (auto simp: col_back_ok_def back_ok_def col_dn_def m')
  then show ?thesis
    by (simp add: col_last_st_def m')
qed

lemma shift_back_st:
  assumes "col_back_st F d m af i0 d s" and "1 \<le> i0"
  shows "col_back_st F d m af (i0 - 1) 0 (shift_back (int (2 * d)) s)"
proof -
  obtain a p1 p2 ip where s: "s = (a, p1, p2, ip)" by (cases s)
  show ?thesis
    using col_back_next_row [OF assms(1) [unfolded s] assms(2)]
    by (simp add: s shift_back_def)
qed

lemma column_back_correct:
  assumes "7 \<le> m" and "m * d \<le> length af" and "0 < d" and "int d \<le> INT_MAX"
    and "int m \<le> INT_MAX"
  shows "\<exists>s'. column_back_substitution F (int d) (int (2 * d))
                 ((af, int (m * d), int (m * d) - int d, 0), int m) = Some s' \<and>
              col_back_st F d m af 0 d s'"
proof -
  let ?I = "col_back_st F d m af"
  let ?sh = "shift_back (int (2 * d))"
  have m1: "1 \<le> m" "2 \<le> m" using assms(1) by simp_all
  have d1: "int_add (int m) (- 1) = Some (int m - 1)"
    using assms(1,5) INT_MIN_neg by (simp add: int_add_def)
  have d2: "int_add (int m - 1) (- 1) = Some (int (m - 2))"
    using assms(1,5) INT_MIN_neg by (simp add: int_add_def)
  from col_last_block [OF col_last_st_init [OF m1(1)] assms(3) m1(1) assms(2,4)]
  obtain s1 where s1: "do_while_dec (int d) (col_last_entry F)
       (af, int (m * d) - int d, int (m * d) - int d, 0) = Some s1" "col_last_st F d m af d s1"
    by blast
  obtain a p1 p2 ip where s1_eq: "s1 = (a, p1, p2, ip)" by (cases s1)
  have i0: "?I (m - 2) 0 (a, p1 - int (2 * d), p2, ip)"
    using s1(2) m1(2) unfolding s1_eq by (rule col_last_next_row)
  have "\<exists>s'. col_back_rows F (int d) (int (2 * d)) (int (m - 2)) (a, p1 - int (2 * d), p2, ip)
              = Some (s', 5) \<and> ?I 5 0 s'"
    using assms by (intro col_back_rows_correct [OF i0]) auto
  then obtain s2 where s2: "col_back_rows F (int d) (int (2 * d)) (int (m - 2))
        (a, p1 - int (2 * d), p2, ip) = Some (s2, 5)" "?I 5 0 s2"
    by blast
  have blk: "\<exists>s'. do_while_dec (int d) (col_back_entry F K) s = Some s' \<and> ?I k d s'"
    if "?I k 0 s" "k \<le> 5" "spec_back_multiplier k = K" for s k K
  proof -
    have "Suc k < m" using that(2) assms(1) by simp
    from col_back_block [OF that(1) assms(3) this assms(2,4)] that(3) show ?thesis by simp
  qed
  have "\<exists>s'. do_while_dec (int d) (col_back_entry F C5) s2 = Some s' \<and> ?I 5 d s'"
    using s2(2) by (intro blk) (simp_all add: spec_back_multiplier_def)
  then obtain s3 where s3: "do_while_dec (int d) (col_back_entry F C5) s2 = Some s3" "?I 5 d s3"
    by blast
  have "\<exists>s'. do_while_dec (int d) (col_back_entry F C4) (?sh s3) = Some s' \<and> ?I 4 d s'"
    using shift_back_st [OF s3(2)] by (intro blk) (simp_all add: spec_back_multiplier_def)
  then obtain s4 where s4: "do_while_dec (int d) (col_back_entry F C4) (?sh s3) = Some s4" "?I 4 d s4"
    by blast
  have "\<exists>s'. do_while_dec (int d) (col_back_entry F C3) (?sh s4) = Some s' \<and> ?I 3 d s'"
    using shift_back_st [OF s4(2)] by (intro blk) (simp_all add: spec_back_multiplier_def)
  then obtain s5 where s5: "do_while_dec (int d) (col_back_entry F C3) (?sh s4) = Some s5" "?I 3 d s5"
    by blast
  have "\<exists>s'. do_while_dec (int d) (col_back_entry F C2) (?sh s5) = Some s' \<and> ?I 2 d s'"
    using shift_back_st [OF s5(2)] by (intro blk) (simp_all add: spec_back_multiplier_def)
  then obtain s6 where s6: "do_while_dec (int d) (col_back_entry F C2) (?sh s5) = Some s6" "?I 2 d s6"
    by blast
  have "\<exists>s'. do_while_dec (int d) (col_back_entry F C1) (?sh s6) = Some s' \<and> ?I 1 d s'"
    using shift_back_st [OF s6(2)] by (intro blk) (simp_all add: spec_back_multiplier_def)
  then obtain s7 where s7: "do_while_dec (int d) (col_back_entry F C1) (?sh s6) = Some s7" "?I 1 d s7"
    by blast
  have "\<exists>s'. do_while_dec (int d) (col_back_entry F C0) (?sh s7) = Some s' \<and> ?I 0 d s'"
    using shift_back_st [OF s7(2)] by (intro blk) (simp_all add: spec_back_multiplier_def)
  then obtain s8 where s8: "do_while_dec (int d) (col_back_entry F C0) (?sh s7) = Some s8" "?I 0 d s8"
    by blast
  have "column_back_substitution F (int d) (int (2 * d))
          ((af, int (m * d), int (m * d) - int d, 0), int m) = Some s8"
    unfolding column_back_substitution_def
    using d1 d2 s1 s1_eq s2 s3 s4 s5 s6 s7 s8 by simp
  then show ?thesis using s8(2) by simp
qed

lemma fwd_okD:
  "fwd_ok src d K base t a0 a \<Longrightarrow> p < t \<Longrightarrow>
   a ! (base + p) = (if p < d then src p else src p - a ! (base + p - d) * K (p div d))"
  by (simp add: fwd_ok_def)

lemma back_okD:
  "back_ok d K L base N dn af a \<Longrightarrow> p < N \<Longrightarrow> dn p \<Longrightarrow>
   a ! (base + p) = (if N \<le> p + d then af ! (base + p) * L
                     else (af ! (base + p) - a ! (base + p + d)) * K (p div d))"
  by (simp add: back_ok_def)

lemma lu_values_distinct: "distinct (map lu_value [C0, C1, C2, C3, C4, C5, CINFTY])"
  by simp

text \<open>
  Claim C8. In each elimination pass of the solver (along a row, then down the columns), the
  forward substitution leaves the first sample as it is, applies \<open>C0\<close> \<dots> \<open>C5\<close> to the
  next six and the single constant \<open>CINFTY\<close> to every remaining sample: seven distinct
  multipliers. The back substitution starts by multiplying the last sample by \<open>CLAST\<close>.
  Every multiplier is one of the eight literals; none is computed per entry. Stated for the
  pass along row \<open>base div (channels * n)\<close> of the grid \<open>a0\<close> and for the pass down the
  columns of a grid \<open>g0\<close> of \<open>m\<close> rows; both passes stay inside their arrays from 7
  samples per row and column on.
\<close>

theorem solver_multipliers:
  fixes F :: "'f::{minus,times} float_ops"
  assumes "7 \<le> n" and "7 \<le> m"
    and "length input_row = channels * n" and "base + channels * n \<le> length a0"
    and "m * (channels * n) \<le> length g0"
    and "int (channels * n) \<le> INT_MAX" and "int m \<le> INT_MAX"
  shows "distinct (map lu_value [C0, C1, C2, C3, C4, C5, CINFTY]) \<and>
    (\<exists>af p1 p2 ip a' q1 q2 iq.
       row_forward_substitution F r input_row ((int n - 7) * int channels)
         (a0, int base, int base, 0) = Some (af, p1, p2, ip) \<and>
       row_back_substitution F ((int n - 7) * int channels) (af, p1, p2, ip)
         = Some (a', q1, q2, iq) \<and>
       (\<forall>p < channels * n. af ! (base + p) =
          (if p < channels then of_int_f F (uint (byte_swap (input_row ! p))) * r
           else of_int_f F (uint (byte_swap (input_row ! p))) * r
                - af ! (base + p - channels)
                  * of_lit F (lu_value (spec_forward_multiplier (p div channels))))) \<and>
       (\<forall>p < channels * n. a' ! (base + p) =
          (if channels * n \<le> p + channels then af ! (base + p) * of_lit F (lu_value CLAST)
           else (af ! (base + p) - a' ! (base + p + channels))
                  * of_lit F (lu_value (spec_back_multiplier (p div channels)))))) \<and>
    (\<exists>gf p1 p2 ip i g' q1 q2 iq.
       column_forward_substitution F (int m) (int (channels * n)) g0 = Some ((gf, p1, p2, ip), i) \<and>
       column_back_substitution F (int (channels * n)) (int (channels * n) + int (channels * n))
         ((gf, p1, p2, ip), i) = Some (g', q1, q2, iq) \<and>
       (\<forall>p < m * (channels * n). gf ! p =
          (if p < channels * n then g0 ! p
           else g0 ! p - gf ! (p - channels * n)
                  * of_lit F (lu_value (spec_forward_multiplier (p div (channels * n)))))) \<and>
       (\<forall>p < m * (channels * n). g' ! p =
          (if m * (channels * n) \<le> p + channels * n then gf ! p * of_lit F (lu_value CLAST)
           else (gf ! p - g' ! (p + channels * n))
                  * of_lit F (lu_value (spec_back_multiplier (p div (channels * n)))))))"
proof (intro conjI)
  show "distinct (map lu_value [C0, C1, C2, C3, C4, C5, CINFTY])"
    by (rule lu_values_distinct)
next
  let ?N = "channels * n"
  have c: "(int n - 7) * int channels = int ((n - 7) * channels)"
    using assms(1) by (simp add: of_nat_diff)
  from row_forward_correct [OF assms(1,3,4,6), of F r]
  obtain af p1 p2 ip where
    f: "row_forward_substitution F r input_row (int ((n - 7) * channels))
          (a0, int base, int base, 0) = Some (af, p1, p2, ip)"
    and fi: "row_fwd_st F r input_row base a0 ?N (af, p1, p2, ip)"
    by auto
  have fok: "fwd_ok (row_src F r input_row) channels (fwd_K F) base ?N a0 af"
    and p: "p1 = int base + int ?N" "p2 = int base + int (?N - channels)" "ip = int ?N"
    using fi by (simp_all add: row_fwd_st_def)
  have len: "base + ?N \<le> length af"
    using fok assms(4) by (simp add: fwd_ok_def)
  from row_back_correct [OF assms(1) len assms(6), of F]
  obtain a' q1 q2 iq where
    b: "row_back_substitution F (int ((n - 7) * channels)) (af, p1, p2, ip) = Some (a', q1, q2, iq)"
    and bi: "row_back_st F base ?N af ?N (a', q1, q2, iq)"
    unfolding p by auto
  have bok: "back_ok channels (back_K F) (of_lit F (lu_value CLAST)) base ?N (\<lambda>p. ?N \<le> p + ?N) af a'"
    using bi by (simp add: row_back_st_def row_back_ok_def)
  have 1: "af ! (base + p) =
          (if p < channels then of_int_f F (uint (byte_swap (input_row ! p))) * r
           else of_int_f F (uint (byte_swap (input_row ! p))) * r
                - af ! (base + p - channels)
                  * of_lit F (lu_value (spec_forward_multiplier (p div channels))))"
    if "p < ?N" for p
    using fwd_okD [OF fok that] by (simp add: row_src_def fwd_K_def)
  have 2: "a' ! (base + p) =
          (if ?N \<le> p + channels then af ! (base + p) * of_lit F (lu_value CLAST)
           else (af ! (base + p) - a' ! (base + p + channels))
                  * of_lit F (lu_value (spec_back_multiplier (p div channels))))"
    if "p < ?N" for p
    using back_okD [OF bok that] by (simp add: back_K_def)
  show "\<exists>af p1 p2 ip a' q1 q2 iq.
       row_forward_substitution F r input_row ((int n - 7) * int channels)
         (a0, int base, int base, 0) = Some (af, p1, p2, ip) \<and>
       row_back_substitution F ((int n - 7) * int channels) (af, p1, p2, ip)
         = Some (a', q1, q2, iq) \<and>
       (\<forall>p < ?N. af ! (base + p) =
          (if p < channels then of_int_f F (uint (byte_swap (input_row ! p))) * r
           else of_int_f F (uint (byte_swap (input_row ! p))) * r
                - af ! (base + p - channels)
                  * of_lit F (lu_value (spec_forward_multiplier (p div channels))))) \<and>
       (\<forall>p < ?N. a' ! (base + p) =
          (if ?N \<le> p + channels then af ! (base + p) * of_lit F (lu_value CLAST)
           else (af ! (base + p) - a' ! (base + p + channels))
                  * of_lit F (lu_value (spec_back_multiplier (p div channels)))))"
    unfolding c using f b 1 2 by blast
next
  let ?d = "channels * n"
  have dpos: "0 < ?d" using assms(1) by (simp add: channels_def)
  from column_forward_correct [OF assms(2,5) dpos assms(6,7), of F]
  obtain gf p1 p2 ip where
    f: "column_forward_substitution F (int m) (int ?d) g0 = Some ((gf, p1, p2, ip), int m)"
    and fi: "col_fwd_st F ?d g0 (m * ?d) (gf, p1, p2, ip)"
    by auto
  have fok: "fwd_ok (\<lambda>p. g0 ! p) ?d (fwd_K F) 0 (m * ?d) g0 gf"
    and p: "p1 = int (m * ?d)" "p2 = int (m * ?d) - int ?d" "ip = 0"
    using fi by (simp_all add: col_fwd_st_def)
  have len: "m * ?d \<le> length gf"
    using fok assms(5) by (simp add: fwd_ok_def)
  have two: "int ?d + int ?d = int (2 * ?d)" by simp
  from column_back_correct [OF assms(2) len dpos assms(6,7), of F]
  obtain g' q1 q2 iq where
    b: "column_back_substitution F (int ?d) (int (2 * ?d)) ((gf, p1, p2, ip), int m)
          = Some (g', q1, q2, iq)"
    and bi: "col_back_st F ?d m gf 0 ?d (g', q1, q2, iq)"
    unfolding p by auto
  have bok: "back_ok ?d (back_K F) (of_lit F (lu_value CLAST)) 0 (m * ?d) (col_dn ?d 0 ?d) gf g'"
    using bi by (simp add: col_back_st_def col_back_ok_def)
  have 1: "gf ! p = (if p < ?d then g0 ! p
           else g0 ! p - gf ! (p - ?d)
                  * of_lit F (lu_value (spec_forward_multiplier (p div ?d))))"
    if "p < m * ?d" for p
    using fwd_okD [OF fok that] by (simp add: fwd_K_def)
  have 2: "g' ! p = (if m * ?d \<le> p + ?d then gf ! p * of_lit F (lu_value CLAST)
           else (gf ! p - g' ! (p + ?d))
                  * of_lit F (lu_value (spec_back_multiplier (p div ?d))))"
    if "p < m * ?d" for p
  proof -
    have "col_dn ?d 0 ?d p" by (auto simp: col_dn_def)
    from back_okD [OF bok that this] show ?thesis by (simp add: back_K_def)
  qed
  show "\<exists>gf p1 p2 ip i g' q1 q2 iq.
       column_forward_substitution F (int m) (int ?d) g0 = Some ((gf, p1, p2, ip), i) \<and>
       column_back_substitution F (int ?d) (int ?d + int ?d)
         ((gf, p1, p2, ip), i) = Some (g', q1, q2, iq) \<and>
       (\<forall>p < m * ?d. gf ! p =
          (if p < ?d then g0 ! p
           else g0 ! p - gf ! (p - ?d)
                  * of_lit F (lu_value (spec_forward_multiplier (p div ?d))))) \<and>
       (\<forall>p < m * ?d. g' ! p =
          (if m * ?d \<le> p + ?d then gf ! p * of_lit F (lu_value CLAST)
           else (gf ! p - g' ! (p + ?d))
                  * of_lit F (lu_value (spec_back_multiplier (p div ?d)))))"
    unfolding two using f b 1 2 by blast
qed

text \<open>A grid of 7 rows of 7 pixels, with integers standing for the floats.\<close>

theorem solver_multipliers_witness:
  "(7::nat) \<le> 7 \<and> length (replicate 21 (0::pixval)) = channels * 7 \<and>
   0 + channels * 7 \<le> length (replicate 21 (0::int)) \<and>
   7 * (channels * 7) \<le> length (replicate 147 (0::int)) \<and>
   int (channels * 7) \<le> INT_MAX \<and>
   (\<exists>s. row_forward_substitution \<lparr>of_int_f = (\<lambda>x. x), of_lit = floor\<rparr> (1::int)
          (replicate 21 0) ((int 7 - 7) * int channels) (replicate 21 0, int 0, int 0, 0) = Some s) \<and>
   (\<exists>s. column_forward_substitution \<lparr>of_int_f = (\<lambda>x. x), of_lit = floor\<rparr> (int 7)
          (int (channels * 7)) (replicate 147 (0::int)) = Some s)"
proof -
  have h: "length (replicate 21 (0::pixval)) = channels * 7"
    "0 + channels * 7 \<le> length (replicate 21 (0::int))"
    "7 * (channels * 7) \<le> length (replicate 147 (0::int))"
    "int (channels * 7) \<le> INT_MAX" "int 7 \<le> INT_MAX"
    by (simp_all add: channels_def INT_MAX_def)
  from solver_multipliers [OF order_refl order_refl h, of "\<lparr>of_int_f = (\<lambda>x. x), of_lit = floor\<rparr>" 1]
  show ?thesis using h by blast
qed

section \<open>Properties of the window shift\<close>


lemma interior_row_last_shift_farbottom:
  assumes "interior_row_last_shift a top_ii middle_ii bottom_ii farbottom_i c w = Some w'"
  shows "a_farbottom_left w' c = a_bottom_right w c \<and>
         a_farbottom_center w' c = a_bottom_farright w c \<and>
         deref a (a3 w) = Some (a_farbottom_right w' c) \<and>
         a_bottom_left w' c = a_bottom_center w c \<and>
         a_bottom_center w' c = a_bottom_right w c \<and>
         a_bottom_right w' c = a_bottom_farright w c"
  using assms
  by (auto simp: interior_row_last_shift_def Let_def split: option.splits)

lemma first_row_last_shift_farbottom:
  assumes "first_row_last_shift a middle_ii bottom_ii farbottom_i c w = Some w'"
  shows "a_farbottom_left w' c = a_farbottom_center w c \<and>
         a_farbottom_center w' c = a_farbottom_right w c \<and>
         a_farbottom_right w' c = a_farbottom_farright w c"
  using assms
  by (auto simp: first_row_last_shift_def Let_def split: option.splits)


text \<open>
  Claim C7. In the branch that emits the last fine row overlapping an interior coarse row,
  each horizontal window shift should move the farbottom taps like the other three rows:
  \<^verbatim>\<open>a_farbottom_left\<close> receives the previous \<^verbatim>\<open>a_farbottom_center\<close>,
  \<^verbatim>\<open>a_farbottom_center\<close> the previous \<^verbatim>\<open>a_farbottom_right\<close>, and \<^verbatim>\<open>a_farbottom_right\<close>
  the previous \<^verbatim>\<open>a_farbottom_farright\<close>. The source does not: on the example window,
  whose bottom taps are 10, 11, 12, 13 and whose farbottom taps are 20, 21, 22, 23, with the
  grid \<open>[1, \<dots>, 12]\<close> read through \<^verbatim>\<open>a1\<close> \<dots> \<^verbatim>\<open>a4\<close>, the interior branch leaves
  12, 13 and the value just read through \<^verbatim>\<open>a3\<close> in the three farbottom taps, where the
  branch for the first coarse row leaves 21, 22, 23.
\<close>

theorem interior_row_last_shift_example:
  "map_option (\<lambda>w. map (farbottom_taps w) [0, 1, 2])
     (do_channels (interior_row_last_shift [1, 2, 3, 4, 5, 6, 7, 8, 9, 10, 11, 12] 1 1 1 1) 0
        example_window)
     = Some [(12, 13, 7), (12, 13, 8), (12, 13, 9)] \<and>
   map_option (\<lambda>w. map (farbottom_taps w) [0, 1, 2])
     (do_channels (first_row_last_shift [1, 2, 3, 4, 5, 6, 7, 8, 9, 10, 11, 12] 1 1 1) 0
        example_window)
     = Some [(21, 22, 23), (21, 22, 23), (21, 22, 23)]"
  by (simp add: do_channels.simps channels_def interior_row_last_shift_def
        first_row_last_shift_def example_window_def farbottom_taps_def deref_def Let_def)

section \<open>The synthesis loops\<close>

subsection \<open>One row: every fine column is written once, in order\<close>

lemma emit_step:
  assumes "filled v L k s" and "channels * k + channels \<le> L"
    and rc: "\<And>c. c < channels \<Longrightarrow> rc (x (int k) c) = Some (v (int k) c)"
  shows "\<exists>s'. emit rc x (int k) s = Some s' \<and> filled v L (Suc k) s'"
proof -
  obtain buf p where s: "s = (buf, p)" by (cases s)
  from assms(1) have len: "length buf = L" and p: "p = int (3 * k)"
    and old: "\<And>q. q < 3 * k \<Longrightarrow> buf ! q = v (int (q div 3)) (q mod 3)"
    by (simp_all add: s filled_def channels_def)
  have L: "3 * k + 3 \<le> L" using assms(2) by (simp add: channels_def)
  let ?b = "buf[3 * k := v (int k) 0, 3 * k + 1 := v (int k) 1, 3 * k + 2 := v (int k) 2]"
  have e: "nat (3 * int k) = 3 * k" "nat (3 * int k + 1) = 3 * k + 1"
    "nat (3 * int k + 1 + 1) = 3 * k + 2"
    by linarith+
  have st: "store B (3 * int k) w = Some (B[3 * k := w])"
    "store B (3 * int k + 1) w = Some (B[3 * k + 1 := w])"
    "store B (3 * int k + 1 + 1) w = Some (B[3 * k + 2 := w])" if "length B = L" for w B
    using L that unfolding store_def e by simp_all
  have r: "rc (x (int k) 0) = Some (v (int k) 0)" "rc (x (int k) (0 + 1)) = Some (v (int k) 1)"
    "rc (x (int k) (0 + 1 + 1)) = Some (v (int k) 2)"
    using rc [of 0] rc [of 1] rc [of 2] by (simp_all add: channels_def numeral_2_eq_2)
  have c: "(0::nat) + 1 < 3" "(0::nat) + 1 + 1 < 3" "\<not> (0::nat) + 1 + 1 + 1 < 3" by simp_all
  have p': "p = 3 * int k" using p by simp
  have "do_channels (\<lambda>c (output_row, output_row_p).
          (case rc (x (int k) c) of
             None \<Rightarrow> None
           | Some w \<Rightarrow>
          (case store output_row output_row_p w of
             None \<Rightarrow> None
           | Some output_row' \<Rightarrow> Some (output_row', output_row_p + 1)))) 0 (buf, 3 * int k)
        = Some (?b, 3 * int k + 1 + 1 + 1)"
    apply (subst do_channels.simps)
    apply (simp only: prod.case r st [OF len] option.case channels_def c if_True if_False)
    apply (subst do_channels.simps)
    apply (simp only: prod.case r st length_list_update len option.case channels_def c if_True if_False)
    apply (subst do_channels.simps)
    apply (simp only: prod.case r st length_list_update len option.case channels_def c if_True if_False)
    done
  then have "emit rc x (int k) s = Some (?b, int (3 * k) + 1 + 1 + 1)"
    unfolding emit_def s p' by simp
  moreover have "?b ! q = v (int (q div 3)) (q mod 3)" if q3: "q < 3 * Suc k" for q
  proof (cases "q < 3 * k")
    case True
    then show ?thesis using old [OF True] by simp
  next
    case False
    then have "q = 3 * k \<or> q = 3 * k + 1 \<or> q = 3 * k + 2" using q3 by arith
    then consider "q = 3 * k" | "q = 3 * k + 1" | "q = 3 * k + 2" by blast
    then show ?thesis
    proof cases
      case 1
      then have dm: "q div 3 = k" "q mod 3 = 0" by presburger+
      have "?b ! q = v (int k) 0" using 1 L len by simp
      then show ?thesis by (simp only: dm)
    next
      case 2
      then have dm: "q div 3 = k" "q mod 3 = 1" by presburger+
      have "?b ! q = v (int k) 1" using 2 L len by simp
      then show ?thesis by (simp only: dm)
    next
      case 3
      then have dm: "q div 3 = k" "q mod 3 = 2" by presburger+
      have "?b ! q = v (int k) 2" using 3 L len by simp
      then show ?thesis by (simp only: dm)
    qed
  qed
  ultimately show ?thesis
    using len by (simp add: filled_def channels_def)
qed

lemma emit_while_done: "\<not> jj < last_jj \<Longrightarrow> emit_while rc x last_jj jj s = Some (jj, s)"
  by (subst emit_while.simps) simp

lemma emit_while_fill:
  assumes "filled v L k s" and "k \<le> b" and "channels * b \<le> L" and "int b \<le> INT_MAX"
    and rc: "\<And>j c. j < b \<Longrightarrow> c < channels \<Longrightarrow> rc (x (int j) c) = Some (v (int j) c)"
  shows "\<exists>s'. emit_while rc x (int b) (int k) s = Some (int b, s') \<and> filled v L b s'"
  using assms(1,2)
proof (induction "b - k" arbitrary: k s)
  case 0
  then have "k = b" by simp
  then show ?case using "0.prems"(1) by (simp add: emit_while_done)
next
  case (Suc d)
  then have lt: "k < b" by simp
  have "channels * k + channels \<le> channels * b"
    using lt by (simp add: channels_def)
  then have room: "channels * k + channels \<le> L" using assms(3) by simp
  have "\<exists>s1. emit rc x (int k) s = Some s1 \<and> filled v L (Suc k) s1"
    by (rule emit_step [OF Suc.prems(1) room]) (rule rc [OF lt])
  then obtain s1 where s1: "emit rc x (int k) s = Some s1" "filled v L (Suc k) s1"
    by blast
  have inc: "int_add (int k) 1 = Some (int (Suc k))"
    using lt assms(4) INT_MIN_neg by (simp add: int_add_def)
  have "\<exists>s'. emit_while rc x (int b) (int (Suc k)) s1 = Some (int b, s') \<and> filled v L b s'"
    using Suc.hyps(2) lt by (intro Suc.hyps(1) s1(2)) auto
  then show ?case
    using s1(1) inc lt by (subst emit_while.simps) simp
qed

lemma good_map_step:
  assumes "good_map lo cnt fine" "0 \<le> k" "k < cnt - 2" "k' = k + 1"
  shows "lo ! nat k < lo ! nat k'"
  using assms unfolding good_map_def by blast

lemma good_map_mono_aux:
  assumes "good_map lo cnt fine" "0 \<le> a"
  shows "a + int d \<le> cnt - 2 \<Longrightarrow> lo ! nat a \<le> lo ! nat (a + int d)"
proof (induction d)
  case 0
  then show ?case by simp
next
  case (Suc d)
  have "lo ! nat (a + int d) < lo ! nat (a + int (Suc d))"
    using assms Suc.prems by (intro good_map_step [OF assms(1)]) auto
  moreover have "lo ! nat a \<le> lo ! nat (a + int d)" using Suc by simp
  ultimately show ?case by linarith
qed

lemma good_map_mono:
  assumes "good_map lo cnt fine" "0 \<le> a" "a \<le> b" "b \<le> cnt - 2"
  shows "lo ! nat a \<le> lo ! nat b"
  using good_map_mono_aux [OF assms(1,2), of "nat (b - a)"] assms(3,4) by simp

lemma good_map_range:
  assumes "good_map lo cnt fine" "0 \<le> a" "a \<le> cnt - 2"
  shows "0 \<le> lo ! nat a" "lo ! nat a < fine"
proof -
  have "lo ! nat 0 \<le> lo ! nat a" using assms by (intro good_map_mono [OF assms(1)]) auto
  then show "0 \<le> lo ! nat a" using assms(1) by (simp add: good_map_def)
  have "lo ! nat a \<le> lo ! nat (cnt - 2)" using assms by (intro good_map_mono [OF assms(1)]) auto
  then show "lo ! nat a < fine" using assms(1) by (simp add: good_map_def)
qed

lemma good_map_deref:
  assumes "good_map lo cnt fine" "0 \<le> a" "a \<le> cnt - 2"
  shows "deref lo a = Some (lo ! nat a)"
  using assms by (simp add: deref_def good_map_def)

lemma cell_fill:
  assumes gm: "good_map lo n nn" and j: "0 \<le> j" "j \<le> n - 2"
    and f: "filled v (channels * nat nn) k s" and k: "int k \<le> lo ! nat j"
    and nn: "nn \<le> INT_MAX"
    and rc: "\<And>jj c. jj < nat nn \<Longrightarrow> c < channels \<Longrightarrow> rc (x (int jj) c) = Some (v (int jj) c)"
  shows "\<exists>s1 s2. emit_while rc x (lo ! nat j) (int k) s = Some (lo ! nat j, s1) \<and>
           emit rc x (lo ! nat j) s1 = Some s2 \<and>
           int_add (lo ! nat j) 1 = Some (lo ! nat j + 1) \<and>
           filled v (channels * nat nn) (nat (lo ! nat j + 1)) s2"
proof -
  define b where "b = nat (lo ! nat j)"
  have r: "0 \<le> lo ! nat j" "lo ! nat j < nn" using good_map_range [OF gm j] by auto
  then have b: "lo ! nat j = int b" "b < nat nn" "k \<le> b" using k by (auto simp: b_def)
  have le: "channels * b \<le> channels * nat nn" "channels * b + channels \<le> channels * nat nn"
    using b(2) by (simp_all add: channels_def)
  have bm: "int b \<le> INT_MAX" using b r nn by linarith
  have "\<exists>s1. emit_while rc x (int b) (int k) s = Some (int b, s1) \<and>
          filled v (channels * nat nn) b s1"
    using b(2) by (intro emit_while_fill [OF f b(3) le(1) bm] rc) auto
  then obtain s1 where s1: "emit_while rc x (int b) (int k) s = Some (int b, s1)"
    "filled v (channels * nat nn) b s1" by blast
  have "\<exists>s2. emit rc x (int b) s1 = Some s2 \<and> filled v (channels * nat nn) (Suc b) s2"
    using b(2) by (intro emit_step [OF s1(2) le(2)] rc) auto
  then obtain s2 where s2: "emit rc x (int b) s1 = Some s2"
    "filled v (channels * nat nn) (Suc b) s2" by blast
  have "int_add (int b) 1 = Some (int b + 1)"
    using b r nn INT_MIN_neg by (simp add: int_add_def)
  moreover have "nat (int b + 1) = Suc b" by simp
  ultimately show ?thesis using s1 s2 unfolding b(1) by (simp only:) blast
qed

lemma interior_cells_fill:
  assumes gm: "good_map lo n nn" and nn: "nn \<le> INT_MAX" and n: "n \<le> INT_MAX"
    and rc: "\<And>jj c. jj < nat nn \<Longrightarrow> c < channels \<Longrightarrow> rc (x (int jj) c) = Some (v (int jj) c)"
  shows "1 \<le> j \<Longrightarrow> j < n - 2 \<Longrightarrow> filled v (channels * nat nn) (nat (lo ! nat (j - 1) + 1)) s \<Longrightarrow>
         \<exists>s'. interior_cells rc x lo (n - 2) j (lo ! nat (j - 1) + 1) s =
                 Some (n - 2, lo ! nat (n - 3) + 1, s') \<and>
              filled v (channels * nat nn) (nat (lo ! nat (n - 3) + 1)) s'"
proof (induction "nat (n - 2 - j)" arbitrary: j s)
  case 0
  then show ?case by simp
next
  case (Suc d)
  have j: "0 \<le> j" "j \<le> n - 2" "0 \<le> j - 1" "j - 1 < n - 2" using Suc.prems by auto
  have r: "0 \<le> lo ! nat (j - 1)" using good_map_range [OF gm, of "j - 1"] j by auto
  have lt: "lo ! nat (j - 1) < lo ! nat j"
    using j by (intro good_map_step [OF gm]) auto
  define k where "k = nat (lo ! nat (j - 1) + 1)"
  have k: "lo ! nat (j - 1) + 1 = int k" "int k \<le> lo ! nat j" using r lt by (auto simp: k_def)
  have f: "filled v (channels * nat nn) k s" using Suc.prems(3) by (simp add: k_def)
  have "\<exists>s1 s2. emit_while rc x (lo ! nat j) (int k) s = Some (lo ! nat j, s1) \<and>
           emit rc x (lo ! nat j) s1 = Some s2 \<and>
           int_add (lo ! nat j) 1 = Some (lo ! nat j + 1) \<and>
           filled v (channels * nat nn) (nat (lo ! nat j + 1)) s2"
    by (intro cell_fill [OF gm j(1,2) f k(2) nn] rc)
  then obtain s1 s2 where c: "emit_while rc x (lo ! nat j) (int k) s = Some (lo ! nat j, s1)"
    "emit rc x (lo ! nat j) s1 = Some s2" "int_add (lo ! nat j) 1 = Some (lo ! nat j + 1)"
    "filled v (channels * nat nn) (nat (lo ! nat j + 1)) s2" by blast
  have d: "deref lo j = Some (lo ! nat j)" by (rule good_map_deref [OF gm j(1,2)])
  have inc: "int_add j 1 = Some (j + 1)"
    using j n INT_MIN_neg by (simp add: int_add_def)
  have unf: "interior_cells rc x lo (n - 2) j (int k) s =
      (if j + 1 < n - 2 then interior_cells rc x lo (n - 2) (j + 1) (lo ! nat j + 1) s2
       else Some (j + 1, lo ! nat j + 1, s2))"
    by (subst interior_cells.simps) (simp add: d c inc)
  show ?case
  proof (cases "j + 1 < n - 2")
    case True
    have "\<exists>s'. interior_cells rc x lo (n - 2) (j + 1) (lo ! nat (j + 1 - 1) + 1) s2 =
                 Some (n - 2, lo ! nat (n - 3) + 1, s') \<and>
              filled v (channels * nat nn) (nat (lo ! nat (n - 3) + 1)) s'"
      using Suc.hyps(2) Suc.prems True c(4) by (intro Suc.hyps(1)) auto
    then show ?thesis unfolding k(1) unf using True by simp
  next
    case False
    then have e: "j + 1 = n - 2" "j = n - 3" using Suc.prems by auto
    show ?thesis unfolding k(1) unf using False c(4) e by auto
  qed
qed

lemma filled_all:
  assumes "filled v (channels * nn) nn (buf, p)"
  shows "buf = row_of v nn"
  using assms by (auto simp: filled_def row_of_def list_eq_iff_nth_eq)

lemma synth_row_fill:
  assumes gm: "good_map lo n nn" and n4: "4 \<le> n" and nn: "nn \<le> INT_MAX" and n: "n \<le> INT_MAX"
    and len: "length output_row = channels * nat nn"
    and rc: "\<And>jj c. jj < nat nn \<Longrightarrow> c < channels \<Longrightarrow> rc (x (int jj) c) = Some (v (int jj) c)"
  shows "synth_row rc swap x lo n nn by_j output_row = Some (map swap (row_of v (nat nn)))"
proof -
  let ?L = "channels * nat nn"
  have f0: "filled v ?L 0 (output_row, 0)" using len by (simp add: filled_def)
  have z: "0 \<le> lo ! nat 0" using gm by (simp add: good_map_def)
  have "\<exists>s1 s2. emit_while rc x (lo ! nat 0) (int 0) (output_row, 0) = Some (lo ! nat 0, s1) \<and>
           emit rc x (lo ! nat 0) s1 = Some s2 \<and>
           int_add (lo ! nat 0) 1 = Some (lo ! nat 0 + 1) \<and>
           filled v ?L (nat (lo ! nat 0 + 1)) s2"
    using n4 z by (intro cell_fill [OF gm _ _ f0 _ nn] rc) auto
  then obtain s1 s2 where c0: "emit_while rc x (lo ! nat 0) (int 0) (output_row, 0) = Some (lo ! nat 0, s1)"
    "emit rc x (lo ! nat 0) s1 = Some s2" "int_add (lo ! nat 0) 1 = Some (lo ! nat 0 + 1)"
    "filled v ?L (nat (lo ! nat 0 + 1)) s2" by auto
  have d0: "deref lo 0 = Some (lo ! nat 0)" using n4 by (intro good_map_deref [OF gm]) auto
  have "\<exists>s3. interior_cells rc x lo (n - 2) 1 (lo ! nat (1 - 1) + 1) s2 =
                 Some (n - 2, lo ! nat (n - 3) + 1, s3) \<and>
              filled v ?L (nat (lo ! nat (n - 3) + 1)) s3"
    using n4 c0(4) by (intro interior_cells_fill [OF gm nn n] rc) auto
  then obtain s3 where ic: "interior_cells rc x lo (n - 2) 1 (lo ! nat 0 + 1) s2 =
      Some (n - 2, lo ! nat (n - 3) + 1, s3)" "filled v ?L (nat (lo ! nat (n - 3) + 1)) s3"
    by auto
  have dl: "deref lo (n - 2) = Some (lo ! nat (n - 2))"
    using n4 by (intro good_map_deref [OF gm]) auto
  have rl: "0 \<le> lo ! nat (n - 2)" "lo ! nat (n - 2) < nn" "0 \<le> lo ! nat (n - 3)"
    using good_map_range [OF gm, of "n - 2"] good_map_range [OF gm, of "n - 3"] n4 by auto
  have lt: "lo ! nat (n - 3) < lo ! nat (n - 2)"
    using n4 by (intro good_map_step [OF gm]) auto
  have il: "int_add (lo ! nat (n - 2)) 1 = Some (lo ! nat (n - 2) + 1)"
    using rl nn INT_MIN_neg by (simp add: int_add_def)
  define k3 where "k3 = nat (lo ! nat (n - 3) + 1)"
  define k4 where "k4 = nat (lo ! nat (n - 2) + 1)"
  have k: "lo ! nat (n - 3) + 1 = int k3" "lo ! nat (n - 2) + 1 = int k4" "k3 \<le> k4"
    "k4 \<le> nat nn" "int (nat nn) = nn"
    using rl lt by (auto simp: k3_def k4_def)
  have f3: "filled v ?L k3 s3" using ic(2) by (simp add: k3_def)
  have b4: "int k4 \<le> INT_MAX" "int (nat nn) \<le> INT_MAX" using k nn by linarith+
  have le4: "channels * k4 \<le> ?L" using k(4) by (simp add: channels_def)
  have "\<exists>s4. emit_while rc x (int k4) (int k3) s3 = Some (int k4, s4) \<and> filled v ?L k4 s4"
    using k(4) by (intro emit_while_fill [OF f3 k(3) le4 b4(1)] rc) auto
  then obtain s4 where s4: "emit_while rc x (int k4) (int k3) s3 = Some (int k4, s4)"
    "filled v ?L k4 s4" by blast
  have "\<exists>s5. emit_while rc x (int (nat nn)) (int k4) s4 = Some (int (nat nn), s5) \<and>
          filled v ?L (nat nn) s5"
    by (intro emit_while_fill [OF s4(2) k(4) _ b4(2)] rc) auto
  then obtain s5 where s5: "emit_while rc x nn (int k4) s4 = Some (nn, s5)"
    "filled v ?L (nat nn) s5" using k(5) by auto
  obtain buf p where bp: "s5 = (buf, p)" by (cases s5)
  have buf: "buf = row_of v (nat nn)" using s5(2) unfolding bp by (rule filled_all)
  show ?thesis
    unfolding synth_row_def
    using d0 c0(1,2,3) ic(1) dl il s4(1) s5(1) k(1,2) bp buf
    by simp
qed

subsection \<open>All rows\<close>

lemma row_step:
  assumes gm: "good_map lo n nn" and n4: "4 \<le> n" and nn: "nn \<le> INT_MAX" and n: "n \<le> INT_MAX"
    and rd: "rows_done swap V (nat nn) k s"
    and rc: "\<And>jj c. jj < nat nn \<Longrightarrow> c < channels \<Longrightarrow>
               rc (x (int k) (int jj) c) = Some (V (int k) (int jj) c)"
  shows "\<exists>row. synth_row rc swap (x (int k)) lo n nn by_j (fst s) = Some row \<and>
           rows_done swap V (nat nn) (Suc k) (row, snd s @ [row])"
proof -
  have len: "length (fst s) = channels * nat nn" using rd by (simp add: rows_done_def)
  have "synth_row rc swap (x (int k)) lo n nn by_j (fst s) =
          Some (map swap (row_of (V (int k)) (nat nn)))"
    by (intro synth_row_fill [OF gm n4 nn n len] rc)
  moreover have "rows_done swap V (nat nn) (Suc k)
      (map swap (row_of (V (int k)) (nat nn)), snd s @ [map swap (row_of (V (int k)) (nat nn))])"
    using rd by (simp add: rows_done_def row_of_def)
  ultimately show ?thesis by blast
qed

lemma rows_while_done:
  "\<not> ii < last_ii \<Longrightarrow> rows_while rc swap x lo n nn by_j last_ii ii s = Some (ii, s)"
  by (subst rows_while.simps) simp

lemma rows_while_fill:
  assumes gm: "good_map lo n nn" and n4: "4 \<le> n" and nn: "nn \<le> INT_MAX" and n: "n \<le> INT_MAX"
    and b: "int b \<le> INT_MAX"
    and rc: "\<And>ii jj c. ii < b \<Longrightarrow> jj < nat nn \<Longrightarrow> c < channels \<Longrightarrow>
               rc (x (int ii) (int jj) c) = Some (V (int ii) (int jj) c)"
  shows "rows_done swap V (nat nn) k s \<Longrightarrow> k \<le> b \<Longrightarrow>
         \<exists>s'. rows_while rc swap x lo n nn by_j (int b) (int k) s = Some (int b, s') \<and>
              rows_done swap V (nat nn) b s'"
proof (induction "b - k" arbitrary: k s)
  case 0
  then have "k = b" by simp
  then show ?case using "0.prems"(1) by (simp add: rows_while_done)
next
  case (Suc d)
  then have lt: "k < b" by simp
  have "\<exists>row. synth_row rc swap (x (int k)) lo n nn by_j (fst s) = Some row \<and>
           rows_done swap V (nat nn) (Suc k) (row, snd s @ [row])"
    using lt by (intro row_step [OF gm n4 nn n Suc.prems(1)] rc) auto
  then obtain row where row: "synth_row rc swap (x (int k)) lo n nn by_j (fst s) = Some row"
    "rows_done swap V (nat nn) (Suc k) (row, snd s @ [row])" by blast
  have inc: "int_add (int k) 1 = Some (int (Suc k))"
    using lt b INT_MIN_neg by (simp add: int_add_def)
  have "\<exists>s'. rows_while rc swap x lo n nn by_j (int b) (int (Suc k)) (row, snd s @ [row]) =
               Some (int b, s') \<and> rows_done swap V (nat nn) b s'"
    using Suc.hyps(2) lt by (intro Suc.hyps(1) row(2)) auto
  then show ?case
    using row(1) inc lt by (subst rows_while.simps) simp
qed

lemma row_cell_fill:
  assumes gm: "good_map lo n nn" and n4: "4 \<le> n" and nn: "nn \<le> INT_MAX" and n: "n \<le> INT_MAX"
    and gi: "good_map loi m mm" and i: "0 \<le> i" "i \<le> m - 2"
    and rd: "rows_done swap V (nat nn) k s" and k: "int k \<le> loi ! nat i"
    and mm: "mm \<le> INT_MAX"
    and rc: "\<And>ii jj c. ii < nat mm \<Longrightarrow> jj < nat nn \<Longrightarrow> c < channels \<Longrightarrow>
               rc (x (int ii) (int jj) c) = Some (V (int ii) (int jj) c)"
  shows "\<exists>s1 row. rows_while rc swap x lo n nn by_j (loi ! nat i) (int k) s =
             Some (loi ! nat i, s1) \<and>
           synth_row rc swap (x (loi ! nat i)) lo n nn by_j' (fst s1) = Some row \<and>
           int_add (loi ! nat i) 1 = Some (loi ! nat i + 1) \<and>
           rows_done swap V (nat nn) (nat (loi ! nat i + 1)) (row, snd s1 @ [row])"
proof -
  define b where "b = nat (loi ! nat i)"
  have r: "0 \<le> loi ! nat i" "loi ! nat i < mm" using good_map_range [OF gi i] by auto
  then have b: "loi ! nat i = int b" "b < nat mm" "k \<le> b" using k by (auto simp: b_def)
  have bm: "int b \<le> INT_MAX" using b r mm by linarith
  have "\<exists>s1. rows_while rc swap x lo n nn by_j (int b) (int k) s = Some (int b, s1) \<and>
          rows_done swap V (nat nn) b s1"
    using b(2) by (intro rows_while_fill [OF gm n4 nn n bm _ rd b(3)] rc) auto
  then obtain s1 where s1: "rows_while rc swap x lo n nn by_j (int b) (int k) s = Some (int b, s1)"
    "rows_done swap V (nat nn) b s1" by blast
  have "\<exists>row. synth_row rc swap (x (int b)) lo n nn by_j' (fst s1) = Some row \<and>
           rows_done swap V (nat nn) (Suc b) (row, snd s1 @ [row])"
    using b(2) by (intro row_step [OF gm n4 nn n s1(2)] rc) auto
  then obtain row where row: "synth_row rc swap (x (int b)) lo n nn by_j' (fst s1) = Some row"
    "rows_done swap V (nat nn) (Suc b) (row, snd s1 @ [row])" by blast
  have "int_add (int b) 1 = Some (int b + 1)"
    using b r mm INT_MIN_neg by (simp add: int_add_def)
  moreover have "nat (int b + 1) = Suc b" by simp
  ultimately show ?thesis using s1 row unfolding b(1) by (simp only:) blast
qed

lemma interior_rows_fill:
  assumes gm: "good_map lo n nn" and n4: "4 \<le> n" and nn: "nn \<le> INT_MAX" and n: "n \<le> INT_MAX"
    and gi: "good_map loi m mm" and mm: "mm \<le> INT_MAX" and m: "m \<le> INT_MAX"
    and rc: "\<And>ii jj c. ii < nat mm \<Longrightarrow> jj < nat nn \<Longrightarrow> c < channels \<Longrightarrow>
               rc (x (int ii) (int jj) c) = Some (V (int ii) (int jj) c)"
  shows "1 \<le> i \<Longrightarrow> i < m - 2 \<Longrightarrow> rows_done swap V (nat nn) (nat (loi ! nat (i - 1) + 1)) s \<Longrightarrow>
         \<exists>s'. interior_rows rc swap x lo loi n nn (m - 2) i (loi ! nat (i - 1) + 1) s =
                 Some (m - 2, loi ! nat (m - 3) + 1, s') \<and>
              rows_done swap V (nat nn) (nat (loi ! nat (m - 3) + 1)) s'"
proof (induction "nat (m - 2 - i)" arbitrary: i s)
  case 0
  then show ?case by simp
next
  case (Suc d)
  have i: "0 \<le> i" "i \<le> m - 2" "0 \<le> i - 1" "i - 1 < m - 2" using Suc.prems by auto
  have r: "0 \<le> loi ! nat (i - 1)" using good_map_range [OF gi, of "i - 1"] i by auto
  have lt: "loi ! nat (i - 1) < loi ! nat i"
    using i by (intro good_map_step [OF gi]) auto
  define k where "k = nat (loi ! nat (i - 1) + 1)"
  have k: "loi ! nat (i - 1) + 1 = int k" "int k \<le> loi ! nat i" using r lt by (auto simp: k_def)
  have f: "rows_done swap V (nat nn) k s" using Suc.prems(3) by (simp add: k_def)
  have "\<exists>s1 row. rows_while rc swap x lo n nn False (loi ! nat i) (int k) s =
             Some (loi ! nat i, s1) \<and>
           synth_row rc swap (x (loi ! nat i)) lo n nn True (fst s1) = Some row \<and>
           int_add (loi ! nat i) 1 = Some (loi ! nat i + 1) \<and>
           rows_done swap V (nat nn) (nat (loi ! nat i + 1)) (row, snd s1 @ [row])"
    by (intro row_cell_fill [OF gm n4 nn n gi i(1,2) f k(2) mm] rc)
  then obtain s1 row where c:
    "rows_while rc swap x lo n nn False (loi ! nat i) (int k) s = Some (loi ! nat i, s1)"
    "synth_row rc swap (x (loi ! nat i)) lo n nn True (fst s1) = Some row"
    "int_add (loi ! nat i) 1 = Some (loi ! nat i + 1)"
    "rows_done swap V (nat nn) (nat (loi ! nat i + 1)) (row, snd s1 @ [row])" by blast
  have d: "deref loi i = Some (loi ! nat i)" by (rule good_map_deref [OF gi i(1,2)])
  have inc: "int_add i 1 = Some (i + 1)"
    using i m INT_MIN_neg by (simp add: int_add_def)
  have unf: "interior_rows rc swap x lo loi n nn (m - 2) i (int k) s =
      (if i + 1 < m - 2
       then interior_rows rc swap x lo loi n nn (m - 2) (i + 1) (loi ! nat i + 1)
              (row, snd s1 @ [row])
       else Some (i + 1, loi ! nat i + 1, row, snd s1 @ [row]))"
    by (subst interior_rows.simps) (simp add: d c inc)
  show ?case
  proof (cases "i + 1 < m - 2")
    case True
    have "\<exists>s'. interior_rows rc swap x lo loi n nn (m - 2) (i + 1) (loi ! nat (i + 1 - 1) + 1)
                 (row, snd s1 @ [row]) =
                 Some (m - 2, loi ! nat (m - 3) + 1, s') \<and>
              rows_done swap V (nat nn) (nat (loi ! nat (m - 3) + 1)) s'"
      using Suc.hyps(2) Suc.prems True c(4) by (intro Suc.hyps(1)) auto
    then show ?thesis unfolding k(1) unf using True by simp
  next
    case False
    then have e: "i + 1 = m - 2" "i = m - 3" using Suc.prems by auto
    show ?thesis unfolding k(1) unf using False c(4) e by auto
  qed
qed

lemma synthesize_fill:
  assumes gm: "good_map lo n nn" and n4: "4 \<le> n" and nn: "nn \<le> INT_MAX" and n: "n \<le> INT_MAX"
    and gi: "good_map loi m mm" and m4: "4 \<le> m" and mm: "mm \<le> INT_MAX" and m: "m \<le> INT_MAX"
    and len: "length output_row = channels * nat nn"
    and rc: "\<And>ii jj c. ii < nat mm \<Longrightarrow> jj < nat nn \<Longrightarrow> c < channels \<Longrightarrow>
               rc (x (int ii) (int jj) c) = Some (V (int ii) (int jj) c)"
  shows "synthesize rc swap x lo loi m n mm nn output_row =
           Some (map (\<lambda>i. map swap (row_of (V (int i)) (nat nn))) [0..<nat mm])"
proof -
  let ?R = "rows_done swap V (nat nn)"
  have f0: "?R 0 (output_row, [])" using len by (simp add: rows_done_def)
  have z: "int 0 \<le> loi ! nat 0" using gi by (simp add: good_map_def)
  have i0: "(0::int) \<le> 0" "0 \<le> m - 2" using m4 by auto
  have "\<exists>s1 row. rows_while rc swap x lo n nn False (loi ! nat 0) (int 0) (output_row, []) =
             Some (loi ! nat 0, s1) \<and>
           synth_row rc swap (x (loi ! nat 0)) lo n nn False (fst s1) = Some row \<and>
           int_add (loi ! nat 0) 1 = Some (loi ! nat 0 + 1) \<and>
           ?R (nat (loi ! nat 0 + 1)) (row, snd s1 @ [row])"
    by (intro row_cell_fill [OF gm n4 nn n gi i0 f0 z mm] rc)
  then obtain s1 row where c0:
    "rows_while rc swap x lo n nn False (loi ! nat 0) (int 0) (output_row, []) =
       Some (loi ! nat 0, s1)"
    "synth_row rc swap (x (loi ! nat 0)) lo n nn False (fst s1) = Some row"
    "int_add (loi ! nat 0) 1 = Some (loi ! nat 0 + 1)"
    "?R (nat (loi ! nat 0 + 1)) (row, snd s1 @ [row])" by blast
  have d0: "deref loi 0 = Some (loi ! nat 0)" by (intro good_map_deref [OF gi i0])
  have "\<exists>s3. interior_rows rc swap x lo loi n nn (m - 2) 1 (loi ! nat (1 - 1) + 1)
                 (row, snd s1 @ [row]) =
                 Some (m - 2, loi ! nat (m - 3) + 1, s3) \<and>
              ?R (nat (loi ! nat (m - 3) + 1)) s3"
    using m4 c0(4) by (intro interior_rows_fill [OF gm n4 nn n gi mm m] rc) auto
  then obtain s3 where ic: "interior_rows rc swap x lo loi n nn (m - 2) 1 (loi ! nat 0 + 1)
      (row, snd s1 @ [row]) = Some (m - 2, loi ! nat (m - 3) + 1, s3)"
    "?R (nat (loi ! nat (m - 3) + 1)) s3"
    by auto
  have dl: "deref loi (m - 2) = Some (loi ! nat (m - 2))"
    using m4 by (intro good_map_deref [OF gi]) auto
  have rl: "0 \<le> loi ! nat (m - 2)" "loi ! nat (m - 2) < mm" "0 \<le> loi ! nat (m - 3)"
    using good_map_range [OF gi, of "m - 2"] good_map_range [OF gi, of "m - 3"] m4 by auto
  have lt: "loi ! nat (m - 3) < loi ! nat (m - 2)"
    using m4 by (intro good_map_step [OF gi]) auto
  have il: "int_add (loi ! nat (m - 2)) 1 = Some (loi ! nat (m - 2) + 1)"
    using rl mm INT_MIN_neg by (simp add: int_add_def)
  define k3 where "k3 = nat (loi ! nat (m - 3) + 1)"
  define k4 where "k4 = nat (loi ! nat (m - 2) + 1)"
  have k: "loi ! nat (m - 3) + 1 = int k3" "loi ! nat (m - 2) + 1 = int k4" "k3 \<le> k4"
    "k4 \<le> nat mm" "int (nat mm) = mm"
    using rl lt by (auto simp: k3_def k4_def)
  have f3: "?R k3 s3" using ic(2) by (simp add: k3_def)
  have b4: "int k4 \<le> INT_MAX" "int (nat mm) \<le> INT_MAX" using k mm by linarith+
  have "\<exists>s4. rows_while rc swap x lo n nn True (int k4) (int k3) s3 = Some (int k4, s4) \<and> ?R k4 s4"
    using k(4) by (intro rows_while_fill [OF gm n4 nn n b4(1) _ f3 k(3)] rc) auto
  then obtain s4 where s4: "rows_while rc swap x lo n nn True (int k4) (int k3) s3 = Some (int k4, s4)"
    "?R k4 s4" by blast
  have "\<exists>s5. rows_while rc swap x lo n nn True (int (nat mm)) (int k4) s4 =
               Some (int (nat mm), s5) \<and> ?R (nat mm) s5"
    by (intro rows_while_fill [OF gm n4 nn n b4(2) _ s4(2) k(4)] rc) auto
  then obtain s5 where s5: "rows_while rc swap x lo n nn True mm (int k4) s4 = Some (mm, s5)"
    "?R (nat mm) s5" using k(5) by auto
  have w: "snd s5 = map (\<lambda>i. map swap (row_of (V (int i)) (nat nn))) [0..<nat mm]"
    using s5(2) by (simp add: rows_done_def)
  show ?thesis
    unfolding synthesize_def
    using d0 c0(1,2,3) ic(1) dl il s4(1) s5(1) k(1,2) w
    by simp
qed

subsection \<open>A run that returns has converted every sample\<close>

text \<open>
  If the synthesis returns with a conversion \<open>rc\<close>, it returns the same rows with every
  conversion that is defined wherever \<open>rc\<close> is. Completing \<open>rc\<close> with two different
  samples then shows that no sample of the output came from an undefined conversion.
\<close>

lemma do_channels_mono:
  assumes "\<And>c s s'. body c s = Some s' \<Longrightarrow> body' c s = Some s'"
  shows "do_channels body c s = Some t \<Longrightarrow> do_channels body' c s = Some t"
proof (induction "channels - c" arbitrary: c s)
  case 0
  from "0.prems" obtain s' where b: "body c s = Some s'"
    by (subst (asm) do_channels.simps) (auto split: option.splits)
  have nlt: "\<not> c + 1 < channels" using "0.hyps" by simp
  have "t = s'" using "0.prems" b nlt by (subst (asm) do_channels.simps) simp
  then show ?case using assms [OF b] nlt by (subst do_channels.simps) simp
next
  case (Suc d)
  from Suc.prems obtain s' where b: "body c s = Some s'"
    by (subst (asm) do_channels.simps) (auto split: option.splits)
  show ?case
  proof (cases "c + 1 < channels")
    case True
    have "do_channels body (c + 1) s' = Some t"
      using Suc.prems b True by (subst (asm) do_channels.simps) simp
    then have "do_channels body' (c + 1) s' = Some t"
      using Suc.hyps(2) by (intro Suc.hyps(1)) auto
    then show ?thesis using assms [OF b] True by (subst do_channels.simps) simp
  next
    case False
    have "t = s'" using Suc.prems b False by (subst (asm) do_channels.simps) simp
    then show ?thesis using assms [OF b] False by (subst do_channels.simps) simp
  qed
qed

lemma emit_mono:
  assumes "refines rc rc'" and "emit rc x jj s = Some t"
  shows "emit rc' x jj s = Some t"
  using assms(2) unfolding emit_def
proof (rule do_channels_mono [rotated])
  fix c and s s' :: "'a list \<times> int"
  assume "(case s of (output_row, output_row_p) \<Rightarrow>
             case rc (x jj c) of None \<Rightarrow> None
             | Some v \<Rightarrow> (case store output_row output_row_p v of None \<Rightarrow> None
                 | Some output_row' \<Rightarrow> Some (output_row', output_row_p + 1))) = Some s'"
  then show "(case s of (output_row, output_row_p) \<Rightarrow>
             case rc' (x jj c) of None \<Rightarrow> None
             | Some v \<Rightarrow> (case store output_row output_row_p v of None \<Rightarrow> None
                 | Some output_row' \<Rightarrow> Some (output_row', output_row_p + 1))) = Some s'"
    using assms(1) by (auto simp: refines_def split: prod.splits option.splits)
qed

lemma emit_while_mono:
  assumes "refines rc rc'"
  shows "emit_while rc x last_jj jj s = Some t \<Longrightarrow> emit_while rc' x last_jj jj s = Some t"
proof (induction "nat (last_jj - jj)" arbitrary: jj s)
  case 0
  then have "\<not> jj < last_jj" by simp
  then show ?case using "0.prems" by (simp add: emit_while_done)
next
  case (Suc d)
  then have lt: "jj < last_jj" by simp
  from Suc.prems lt obtain s' where e: "emit rc x jj s = Some s'"
    by (subst (asm) emit_while.simps) (auto split: option.splits)
  from Suc.prems lt e obtain jj' where i: "int_add jj 1 = Some jj'"
    by (subst (asm) emit_while.simps) (auto split: option.splits)
  have jj': "jj' = jj + 1" using i by (simp add: int_add_def split: if_splits)
  have "emit_while rc x last_jj jj' s' = Some t"
    using Suc.prems lt e i by (subst (asm) emit_while.simps) simp
  then have "emit_while rc' x last_jj jj' s' = Some t"
    using Suc.hyps(2) jj' by (intro Suc.hyps(1)) auto
  then show ?case
    using emit_mono [OF assms e] i lt by (subst emit_while.simps) simp
qed

lemma interior_cells_SomeE:
  assumes "interior_cells rc x lo n2 j jj s = Some t"
  obtains last_jj jj1 s1 s2 jj2 j' where "deref lo j = Some last_jj"
    "emit_while rc x last_jj jj s = Some (jj1, s1)" "emit rc x jj1 s1 = Some s2"
    "int_add jj1 1 = Some jj2" "int_add j 1 = Some j'"
    "(if j' < n2 then interior_cells rc x lo n2 j' jj2 s2 else Some (j', jj2, s2)) = Some t"
  using assms by (subst (asm) interior_cells.simps) (simp split: option.splits prod.splits)

lemma interior_cells_mono:
  assumes "refines rc rc'"
  shows "interior_cells rc x lo n2 j jj s = Some t \<Longrightarrow> interior_cells rc' x lo n2 j jj s = Some t"
proof (induction "nat (n2 - j)" arbitrary: j jj s)
  case 0
  from "0.prems" obtain last_jj jj1 s1 s2 jj2 j' where u: "deref lo j = Some last_jj"
    "emit_while rc x last_jj jj s = Some (jj1, s1)" "emit rc x jj1 s1 = Some s2"
    "int_add jj1 1 = Some jj2" "int_add j 1 = Some j'"
    "(if j' < n2 then interior_cells rc x lo n2 j' jj2 s2 else Some (j', jj2, s2)) = Some t"
    by (rule interior_cells_SomeE)
  have j': "j' = j + 1" using u(5) by (simp add: int_add_def split: if_splits)
  then have "\<not> j' < n2" using "0.hyps" by simp
  then show ?case
    using u emit_while_mono [OF assms u(2)] emit_mono [OF assms u(3)]
    by (subst interior_cells.simps) simp
next
  case (Suc d)
  from Suc.prems obtain last_jj jj1 s1 s2 jj2 j' where u: "deref lo j = Some last_jj"
    "emit_while rc x last_jj jj s = Some (jj1, s1)" "emit rc x jj1 s1 = Some s2"
    "int_add jj1 1 = Some jj2" "int_add j 1 = Some j'"
    "(if j' < n2 then interior_cells rc x lo n2 j' jj2 s2 else Some (j', jj2, s2)) = Some t"
    by (rule interior_cells_SomeE)
  have j': "j' = j + 1" using u(5) by (simp add: int_add_def split: if_splits)
  have "(if j' < n2 then interior_cells rc' x lo n2 j' jj2 s2 else Some (j', jj2, s2)) = Some t"
  proof (cases "j' < n2")
    case True
    then have "interior_cells rc x lo n2 j' jj2 s2 = Some t" using u(6) by simp
    then have "interior_cells rc' x lo n2 j' jj2 s2 = Some t"
      using Suc.hyps(2) j' by (intro Suc.hyps(1)) auto
    then show ?thesis using True by simp
  next
    case False
    then show ?thesis using u(6) by simp
  qed
  then show ?case
    using u(1,4,5) emit_while_mono [OF assms u(2)] emit_mono [OF assms u(3)]
    by (subst interior_cells.simps) simp
qed

lemma synth_row_mono:
  assumes "refines rc rc'" and "synth_row rc swap x lo n nn by_j output_row = Some t"
  shows "synth_row rc' swap x lo n nn by_j output_row = Some t"
proof -
  from assms(2) obtain last_jj jj1 s1 s2 jj2 j3 jj3 s3 l last_jj4 jj4 s4 jj5 buf p where u:
    "deref lo 0 = Some last_jj" "emit_while rc x last_jj 0 (output_row, 0) = Some (jj1, s1)"
    "emit rc x jj1 s1 = Some s2" "int_add jj1 1 = Some jj2"
    "interior_cells rc x lo (n - 2) 1 jj2 s2 = Some (j3, jj3, s3)"
    "deref lo (if by_j then j3 else n - 2) = Some l" "int_add l 1 = Some last_jj4"
    "emit_while rc x last_jj4 jj3 s3 = Some (jj4, s4)"
    "emit_while rc x nn jj4 s4 = Some (jj5, buf, p)" "t = map swap buf"
    unfolding synth_row_def by (auto split: option.splits prod.splits)
  show ?thesis
    unfolding synth_row_def
    using u(1,4,6,7,10) emit_while_mono [OF assms(1) u(2)] emit_mono [OF assms(1) u(3)]
      interior_cells_mono [OF assms(1) u(5)] emit_while_mono [OF assms(1) u(8)]
      emit_while_mono [OF assms(1) u(9)]
    by simp
qed

lemma rows_while_mono:
  assumes "refines rc rc'"
  shows "rows_while rc swap x lo n nn by_j last_ii ii s = Some t \<Longrightarrow>
         rows_while rc' swap x lo n nn by_j last_ii ii s = Some t"
proof (induction "nat (last_ii - ii)" arbitrary: ii s)
  case 0
  then have "\<not> ii < last_ii" by simp
  then show ?case using "0.prems" by (simp add: rows_while_done)
next
  case (Suc d)
  then have lt: "ii < last_ii" by simp
  from Suc.prems lt obtain row where e: "synth_row rc swap (x ii) lo n nn by_j (fst s) = Some row"
    by (subst (asm) rows_while.simps) (auto split: option.splits)
  from Suc.prems lt e obtain ii' where i: "int_add ii 1 = Some ii'"
    by (subst (asm) rows_while.simps) (auto split: option.splits)
  have ii': "ii' = ii + 1" using i by (simp add: int_add_def split: if_splits)
  have "rows_while rc swap x lo n nn by_j last_ii ii' (row, snd s @ [row]) = Some t"
    using Suc.prems lt e i by (subst (asm) rows_while.simps) simp
  then have "rows_while rc' swap x lo n nn by_j last_ii ii' (row, snd s @ [row]) = Some t"
    using Suc.hyps(2) ii' by (intro Suc.hyps(1)) auto
  then show ?case
    using synth_row_mono [OF assms e] i lt by (subst rows_while.simps) simp
qed

lemma interior_rows_SomeE:
  assumes "interior_rows rc swap x lo loi n nn m2 i ii s = Some t"
  obtains last_ii ii1 s1 row ii2 i' where "deref loi i = Some last_ii"
    "rows_while rc swap x lo n nn False last_ii ii s = Some (ii1, s1)"
    "synth_row rc swap (x ii1) lo n nn True (fst s1) = Some row"
    "int_add ii1 1 = Some ii2" "int_add i 1 = Some i'"
    "(if i' < m2 then interior_rows rc swap x lo loi n nn m2 i' ii2 (row, snd s1 @ [row])
      else Some (i', ii2, row, snd s1 @ [row])) = Some t"
  using assms by (subst (asm) interior_rows.simps) (simp split: option.splits prod.splits)

lemma interior_rows_mono:
  assumes "refines rc rc'"
  shows "interior_rows rc swap x lo loi n nn m2 i ii s = Some t \<Longrightarrow>
         interior_rows rc' swap x lo loi n nn m2 i ii s = Some t"
proof (induction "nat (m2 - i)" arbitrary: i ii s)
  case 0
  from "0.prems" obtain last_ii ii1 s1 row ii2 i' where u: "deref loi i = Some last_ii"
    "rows_while rc swap x lo n nn False last_ii ii s = Some (ii1, s1)"
    "synth_row rc swap (x ii1) lo n nn True (fst s1) = Some row"
    "int_add ii1 1 = Some ii2" "int_add i 1 = Some i'"
    "(if i' < m2 then interior_rows rc swap x lo loi n nn m2 i' ii2 (row, snd s1 @ [row])
      else Some (i', ii2, row, snd s1 @ [row])) = Some t"
    by (rule interior_rows_SomeE)
  have i': "i' = i + 1" using u(5) by (simp add: int_add_def split: if_splits)
  then have "\<not> i' < m2" using "0.hyps" by simp
  then show ?case
    using u rows_while_mono [OF assms u(2)] synth_row_mono [OF assms u(3)]
    by (subst interior_rows.simps) simp
next
  case (Suc d)
  from Suc.prems obtain last_ii ii1 s1 row ii2 i' where u: "deref loi i = Some last_ii"
    "rows_while rc swap x lo n nn False last_ii ii s = Some (ii1, s1)"
    "synth_row rc swap (x ii1) lo n nn True (fst s1) = Some row"
    "int_add ii1 1 = Some ii2" "int_add i 1 = Some i'"
    "(if i' < m2 then interior_rows rc swap x lo loi n nn m2 i' ii2 (row, snd s1 @ [row])
      else Some (i', ii2, row, snd s1 @ [row])) = Some t"
    by (rule interior_rows_SomeE)
  have i': "i' = i + 1" using u(5) by (simp add: int_add_def split: if_splits)
  have "(if i' < m2 then interior_rows rc' swap x lo loi n nn m2 i' ii2 (row, snd s1 @ [row])
      else Some (i', ii2, row, snd s1 @ [row])) = Some t"
  proof (cases "i' < m2")
    case True
    then have "interior_rows rc swap x lo loi n nn m2 i' ii2 (row, snd s1 @ [row]) = Some t"
      using u(6) by simp
    then have "interior_rows rc' swap x lo loi n nn m2 i' ii2 (row, snd s1 @ [row]) = Some t"
      using Suc.hyps(2) i' by (intro Suc.hyps(1)) auto
    then show ?thesis using True by simp
  next
    case False
    then show ?thesis using u(6) by simp
  qed
  then show ?case
    using u(1,4,5) rows_while_mono [OF assms u(2)] synth_row_mono [OF assms u(3)]
    by (subst interior_rows.simps) simp
qed

lemma synthesize_mono:
  assumes "refines rc rc'" and "synthesize rc swap x lo loi m n mm nn output_row = Some t"
  shows "synthesize rc' swap x lo loi m n mm nn output_row = Some t"
proof -
  from assms(2) obtain last_ii ii1 s1 row ii2 i3 ii3 s3 l last_ii4 ii4 s4 ii5 s5 where u:
    "deref loi 0 = Some last_ii"
    "rows_while rc swap x lo n nn False last_ii 0 (output_row, []) = Some (ii1, s1)"
    "synth_row rc swap (x ii1) lo n nn False (fst s1) = Some row" "int_add ii1 1 = Some ii2"
    "interior_rows rc swap x lo loi n nn (m - 2) 1 ii2 (row, snd s1 @ [row]) = Some (i3, ii3, s3)"
    "deref loi (m - 2) = Some l" "int_add l 1 = Some last_ii4"
    "rows_while rc swap x lo n nn True last_ii4 ii3 s3 = Some (ii4, s4)"
    "rows_while rc swap x lo n nn True mm ii4 s4 = Some (ii5, s5)" "t = snd s5"
    unfolding synthesize_def by (auto split: option.splits prod.splits)
  show ?thesis
    unfolding synthesize_def
    using u(1,4,6,7,10) rows_while_mono [OF assms(1) u(2)] synth_row_mono [OF assms(1) u(3)]
      interior_rows_mono [OF assms(1) u(5)] rows_while_mono [OF assms(1) u(8)]
      rows_while_mono [OF assms(1) u(9)]
    by simp
qed

lemma row_of_length: "length (row_of v nn) = channels * nn"
  by (simp add: row_of_def)

lemma row_of_nth:
  assumes "jj < nn" "c < channels"
  shows "row_of v nn ! (channels * jj + c) = v (int jj) c"
proof -
  have c3: "c < 3" using assms(2) by (simp add: channels_def)
  have "3 * jj + c < 3 * nn" using assms(1) c3 by simp
  moreover have "(3 * jj + c) div 3 = jj" "(3 * jj + c) mod 3 = c" using c3 by simp_all
  ultimately show ?thesis by (simp add: row_of_def channels_def)
qed

lemma image_of_nth:
  assumes "ii < mm" "jj < nn" "c < channels"
  shows "image_of swap V mm nn ! ii ! (channels * jj + c) = swap (V (int ii) (int jj) c)"
proof -
  have "channels * jj + c < channels * nn"
    using assms(2,3) by (simp add: channels_def)
  then show ?thesis
    using assms by (simp add: image_of_def row_of_length row_of_nth)
qed

lemma image_of_length:
  "length (image_of swap V mm nn) = mm"
  "ii < mm \<Longrightarrow> length (image_of swap V mm nn ! ii) = channels * nn"
  by (simp_all add: image_of_def row_of_length)

lemma refines_completed: "refines rc (completed rc a)"
  by (simp add: refines_def completed_def)

lemma completed_Some: "completed rc a r = Some (the (completed rc a r))"
  by (simp add: completed_def split: option.splits)

lemma synthesize_sound:
  assumes gm: "good_map lo n nn" and n4: "4 \<le> n" and nn: "nn \<le> INT_MAX" and n: "n \<le> INT_MAX"
    and gi: "good_map loi m mm" and m4: "4 \<le> m" and mm: "mm \<le> INT_MAX" and m: "m \<le> INT_MAX"
    and len: "length output_row = channels * nat nn"
    and ab: "swap a \<noteq> swap b"
    and run: "synthesize rc swap x lo loi m n mm nn output_row = Some written"
  shows "length written = nat mm \<and>
         (\<forall>ii<nat mm. length (written ! ii) = channels * nat nn \<and>
            (\<forall>jj<nat nn. \<forall>c<channels. \<exists>v. rc (x (int ii) (int jj) c) = Some v \<and>
               written ! ii ! (channels * jj + c) = swap v))"
proof -
  define V where "V d ii jj c = the (completed rc d (x ii jj c))" for d ii jj c
  have w: "written = image_of swap (V d) (nat mm) (nat nn)" for d
  proof -
    have "synthesize (completed rc d) swap x lo loi m n mm nn output_row = Some written"
      by (rule synthesize_mono [OF refines_completed run])
    moreover have "synthesize (completed rc d) swap x lo loi m n mm nn output_row =
        Some (map (\<lambda>i. map swap (row_of (V d (int i)) (nat nn))) [0..<nat mm])"
      unfolding V_def
      by (intro synthesize_fill [OF gm n4 nn n gi m4 mm m len] completed_Some)
    ultimately show ?thesis by (simp add: image_of_def)
  qed
  have some: "\<exists>v. rc (x (int ii) (int jj) c) = Some v"
    if "ii < nat mm" "jj < nat nn" "c < channels" for ii jj c
  proof (rule ccontr)
    assume "\<nexists>v. rc (x (int ii) (int jj) c) = Some v"
    then have none: "rc (x (int ii) (int jj) c) = None" by simp
    have "V d (int ii) (int jj) c = d" for d
      by (simp add: V_def completed_def none)
    then have "written ! ii ! (channels * jj + c) = swap d" for d
      using image_of_nth [OF that, where swap = swap and V = "V d"] w [of d] by simp
    from this [of a] this [of b] show False using ab by simp
  qed
  have val: "written ! ii ! (channels * jj + c) = swap v"
    if "ii < nat mm" "jj < nat nn" "c < channels" "rc (x (int ii) (int jj) c) = Some v"
    for ii jj c v
  proof -
    have "V a (int ii) (int jj) c = v" using that(4) by (simp add: V_def completed_def)
    then show ?thesis using image_of_nth [OF that(1-3), where swap = swap and V = "V a"] w [of a] by simp
  qed
  have l: "length written = nat mm"
    "\<And>ii. ii < nat mm \<Longrightarrow> length (written ! ii) = channels * nat nn"
    using image_of_length [where swap = swap and V = "V a" and mm = "nat mm" and nn = "nat nn"] w [of a] by simp_all
  show ?thesis using l some val by metis
qed

subsection \<open>The overlap maps that \<^verbatim>\<open>scale_up\<close> uses\<close>

lemma loi_good:
  assumes "2 \<le> oc" "oc \<le> oo" "oo \<le> INT_MAX" "oc < oo \<longrightarrow> oc * oo \<le> INT_MAX"
    and "length arr = nat (oc - 1)"
  shows "\<exists>lo. last_overlapping_index oc oo arr = Some lo \<and> good_map lo oc oo"
proof (cases "oc = oo")
  case True
  have "\<exists>m. last_overlapping_index oc oc arr = Some m \<and> length m = nat (oc - 1) \<and>
           (\<forall>i. 0 \<le> i \<and> i < oc - 1 \<longrightarrow> m ! nat i = i)"
    using assms True by (intro loi_same_size) auto
  then obtain lo where lo: "last_overlapping_index oc oc arr = Some lo" "length lo = nat (oc - 1)"
    "\<And>i. 0 \<le> i \<Longrightarrow> i < oc - 1 \<Longrightarrow> lo ! nat i = i" by blast
  have "lo ! nat 0 = 0" using assms(1) by (intro lo(3)) auto
  moreover have "lo ! nat (oc - 2) = oc - 2" using assms(1) by (intro lo(3)) auto
  moreover have "lo ! nat k < lo ! nat (k + 1)" if "0 \<le> k \<and> k < oc - 2" for k
    using lo(3) [of k] lo(3) [of "k + 1"] that by simp
  ultimately have "good_map lo oc oc" using lo(2) by (simp add: good_map_def)
  then show ?thesis using lo(1) True by auto
next
  case False
  then have lt: "oc < oo" and b: "oc * oo \<le> INT_MAX" using assms by auto
  have "\<exists>m. last_overlapping_index oc oo arr = Some m \<and> length m = nat (oc - 1) \<and>
           (\<forall>i. 0 \<le> i \<and> i < oc - 1 \<longrightarrow> is_last oc oo i (m ! nat i))"
    using assms lt b by (intro loi_upsize) auto
  then obtain lo where lo: "last_overlapping_index oc oo arr = Some lo" "length lo = nat (oc - 1)"
    "\<And>i. 0 \<le> i \<Longrightarrow> i < oc - 1 \<Longrightarrow> is_last oc oo i (lo ! nat i)" by blast
  have pos: "0 < oc" "0 < oo" using assms(1) lt by auto
  have "is_last oc oo 0 (lo ! nat 0)" using assms(1) by (intro lo(3)) auto
  then have "1 \<le> lo ! nat 0" by (rule is_last_first [OF _ pos(1) lt])
  moreover have "lo ! nat (oc - 2) < oo"
  proof -
    have "is_last oc oo (oc - 2) (lo ! nat (oc - 2))" using assms(1) by (intro lo(3)) auto
    then show ?thesis by (rule is_last_bound [OF _ pos]) simp
  qed
  moreover have "lo ! nat k < lo ! nat (k + 1)" if "0 \<le> k \<and> k < oc - 2" for k
  proof -
    have "is_last oc oo k (lo ! nat k)" "is_last oc oo (k + 1) (lo ! nat (k + 1))"
      using that by (auto intro!: lo(3))
    then show ?thesis by (rule is_last_step [OF _ _ pos(1) lt])
  qed
  ultimately have "good_map lo oc oo" using lo(2) by (simp add: good_map_def)
  then show ?thesis using lo(1) by auto
qed

lemma loi_Some_good:
  assumes "2 \<le> oc" "oc \<le> oo" "oo \<le> INT_MAX" "length arr = nat (oc - 1)"
    and "last_overlapping_index oc oo arr = Some lo"
  shows "good_map lo oc oo"
proof -
  have "oc < oo \<longrightarrow> oc * oo \<le> INT_MAX"
    using loi_defined [OF assms(5)] assms(1) by auto
  from loi_good [OF assms(1-3) this assms(4)] assms(5) show ?thesis by auto
qed

subsection \<open>Reading and solving\<close>

lemma fread_some:
  assumes "length buf = d" "stream \<noteq> []" "0 < d"
  shows "\<exists>buf' items. fread buf (int d) stream = (buf', drop d stream, items) \<and>
           items \<noteq> 0 \<and> length buf' = d"
proof -
  have "nat (int d) = d" by simp
  then show ?thesis
    using assms unfolding fread_def Let_def by (auto simp: min_def)
qed

lemma row_pass_ok:
  assumes "7 \<le> N" and "length input_row = channels * N"
    and "base + channels * N \<le> length a0" and "int (channels * N) \<le> INT_MAX"
  shows "\<exists>s s'. row_forward_substitution F r input_row (int ((N - 7) * channels))
                  (a0, int base, int base, 0) = Some s \<and>
           row_back_substitution F (int ((N - 7) * channels)) s = Some s' \<and>
           length (fst s') = length a0"
proof -
  from row_forward_correct [OF assms, of F r]
  obtain s where s: "row_forward_substitution F r input_row (int ((N - 7) * channels))
                  (a0, int base, int base, 0) = Some s"
    "row_fwd_st F r input_row base a0 (channels * N) s" by blast
  obtain af p1 p2 ip where sf: "s = (af, p1, p2, ip)" by (cases s)
  have af: "length af = length a0" "p1 = int base + int (channels * N)"
    "p2 = int base + int (channels * N - channels)" "ip = int (channels * N)"
    using s(2) by (simp_all add: sf row_fwd_st_def fwd_ok_def)
  have "base + channels * N \<le> length af" using assms(3) af(1) by simp
  from row_back_correct [OF assms(1) this assms(4), of F]
  obtain s' where s': "row_back_substitution F (int ((N - 7) * channels)) s = Some s'"
    "row_back_st F base (channels * N) af (channels * N) s'"
    unfolding sf af by blast
  obtain ab q1 q2 iq where sb: "s' = (ab, q1, q2, iq)" by (cases s')
  have "length ab = length af"
    using s'(2) by (simp add: sb row_back_st_def row_back_ok_def back_ok_def)
  then show ?thesis using s(1) s'(1) af(1) sb by auto
qed

lemma read_rows_step:
  assumes N: "7 \<le> N" and big: "int (M * (channels * N)) \<le> INT_MAX"
    and i: "i < M" and lr: "length input_row = channels * N"
    and la: "M * (channels * N) \<le> length a" and ne: "stream \<noteq> []"
  shows "\<exists>row' a1. length row' = channels * N \<and> length a1 = length a \<and>
           read_rows F r (int M) (int (channels * N)) (int ((N - 7) * channels)) (int i)
             a input_row stream =
           (if Suc i < M
            then read_rows F r (int M) (int (channels * N)) (int ((N - 7) * channels))
                   (int (Suc i)) a1 row' (drop (channels * N) stream)
            else Some (Inr a1))"
proof -
  let ?d = "channels * N"
  have dpos: "0 < ?d" using N by (simp add: channels_def)
  have ile: "i * ?d + ?d \<le> M * ?d"
    using i mult_le_mono1 [of "Suc i" M ?d] by simp
  then have ib: "int (i * ?d) \<le> INT_MAX" using big by linarith
  have "INT_MIN \<le> int (i * ?d)" using INT_MIN_neg by linarith
  then have mul: "int_mul (int i) (int ?d) = Some (int (i * ?d))"
    using ib by (simp add: int_mul_def)
  from fread_some [OF lr ne dpos]
  obtain row' items where fr: "fread input_row (int ?d) stream = (row', drop ?d stream, items)"
    "items \<noteq> 0" "length row' = ?d" by auto
  have db: "int ?d \<le> INT_MAX" using ile big by linarith
  have room: "i * ?d + ?d \<le> length a" using ile la by simp
  from row_pass_ok [OF N fr(3) room db, of F r]
  obtain s s' where rp: "row_forward_substitution F r row' (int ((N - 7) * channels))
                  (a, int (i * ?d), int (i * ?d), 0) = Some s"
    "row_back_substitution F (int ((N - 7) * channels)) s = Some s'"
    "length (fst s') = length a" by blast
  have "M \<le> M * ?d" using dpos by simp
  then have Mb: "int M \<le> INT_MAX" using big by linarith
  have "INT_MIN \<le> int i + 1" "int i + 1 \<le> INT_MAX" using i Mb INT_MIN_neg by linarith+
  then have inc: "int_add (int i) 1 = Some (int (Suc i))"
    by (simp add: int_add_def)
  have "read_rows F r (int M) (int ?d) (int ((N - 7) * channels)) (int i) a input_row stream =
      (if Suc i < M
       then read_rows F r (int M) (int ?d) (int ((N - 7) * channels))
              (int (Suc i)) (fst s') row' (drop ?d stream)
       else Some (Inr (fst s')))"
    using mul fr(1,2) rp(1,2) inc by (subst read_rows.simps) simp
  then show ?thesis using fr(3) rp(3) by blast
qed

lemma read_rows_ok:
  assumes N: "7 \<le> N" and big: "int (M * (channels * N)) \<le> INT_MAX"
  shows "i < M \<Longrightarrow> length input_row = channels * N \<Longrightarrow> M * (channels * N) \<le> length a \<Longrightarrow>
         (M - 1 - i) * (channels * N) < length stream \<Longrightarrow>
         \<exists>a'. read_rows F r (int M) (int (channels * N)) (int ((N - 7) * channels)) (int i)
                  a input_row stream = Some (Inr a') \<and> length a' = length a"
proof (induction "M - 1 - i" arbitrary: i a input_row stream)
  case 0
  have ne: "stream \<noteq> []" using "0.prems"(4) by auto
  have last: "\<not> Suc i < M" using "0.hyps" by simp
  from read_rows_step [OF N big "0.prems"(1,2,3) ne, of F r] last
  show ?case by auto
next
  case (Suc d)
  have ne: "stream \<noteq> []" using Suc.prems(4) by auto
  have more: "Suc i < M" using Suc.hyps(2) by simp
  from read_rows_step [OF N big Suc.prems(1,2,3) ne, of F r] more
  obtain row' a1 where st: "length row' = channels * N" "length a1 = length a"
    "read_rows F r (int M) (int (channels * N)) (int ((N - 7) * channels)) (int i)
       a input_row stream =
     read_rows F r (int M) (int (channels * N)) (int ((N - 7) * channels))
       (int (Suc i)) a1 row' (drop (channels * N) stream)" by auto
  have "M - 1 - i = Suc (M - 1 - Suc i)" using more by simp
  then have "(M - 1 - i) * (channels * N) = (M - 1 - Suc i) * (channels * N) + channels * N"
    by (simp only: mult_Suc add.commute)
  then have rest: "(M - 1 - Suc i) * (channels * N) < length (drop (channels * N) stream)"
    using Suc.prems(4) by simp
  have "\<exists>a'. read_rows F r (int M) (int (channels * N)) (int ((N - 7) * channels)) (int (Suc i))
                  a1 row' (drop (channels * N) stream) = Some (Inr a') \<and> length a' = length a1"
    using Suc.hyps(2) Suc.prems(3) st(2) more
    by (intro Suc.hyps(1) st(1) rest) auto
  then show ?case using st(2,3) by simp
qed

lemma column_passes_ok:
  assumes "7 \<le> M" and "M * d \<le> length a" and "0 < d" and "int d \<le> INT_MAX"
    and "int M \<le> INT_MAX"
  shows "\<exists>sf sb. column_forward_substitution F (int M) (int d) a = Some sf \<and>
           column_back_substitution F (int d) (int (2 * d)) sf = Some sb"
proof -
  from column_forward_correct [OF assms, of F]
  obtain s where s: "column_forward_substitution F (int M) (int d) a = Some (s, int M)"
    "col_fwd_st F d a (M * d) s" by blast
  obtain af p1 p2 ip where sf: "s = (af, p1, p2, ip)" by (cases s)
  have af: "length af = length a" "p1 = int (M * d)" "p2 = int (M * d) - int d" "ip = 0"
    using s(2) by (simp_all add: sf col_fwd_st_def fwd_ok_def)
  have "M * d \<le> length af" using assms(2) af(1) by simp
  from column_back_correct [OF assms(1) this assms(3,4,5), of F]
  obtain sb where "column_back_substitution F (int d) (int (2 * d)) (s, int M) = Some sb"
    unfolding sf af by blast
  then show ?thesis using s(1) by blast
qed

lemma read_rows_fail:
  assumes N: "7 \<le> N" and big: "int (M * (channels * N)) \<le> INT_MAX"
  shows "i < M \<Longrightarrow> length input_row = channels * N \<Longrightarrow> M * (channels * N) \<le> length a \<Longrightarrow>
         length stream \<le> (M - 1 - i) * (channels * N) \<Longrightarrow>
         read_rows F r (int M) (int (channels * N)) (int ((N - 7) * channels)) (int i)
           a input_row stream = Some (Inl ReadFailure)"
proof (induction "M - 1 - i" arbitrary: i a input_row stream)
  case 0
  then have e: "stream = []" by simp
  let ?d = "channels * N"
  have ile: "i * ?d \<le> M * ?d" using "0.prems"(1) by simp
  then have "int (i * ?d) \<le> INT_MAX" "INT_MIN \<le> int (i * ?d)"
    using big INT_MIN_neg by linarith+
  then have mul: "int_mul (int i) (int ?d) = Some (int (i * ?d))"
    by (simp add: int_mul_def)
  show ?case
    unfolding e using mul by (subst read_rows.simps) (simp add: fread_def)
next
  case (Suc k)
  let ?d = "channels * N"
  show ?case
  proof (cases "stream = []")
    case True
    have ile: "i * ?d \<le> M * ?d" using Suc.prems(1) by simp
    then have "int (i * ?d) \<le> INT_MAX" "INT_MIN \<le> int (i * ?d)"
      using big INT_MIN_neg by linarith+
    then have mul: "int_mul (int i) (int ?d) = Some (int (i * ?d))"
      by (simp add: int_mul_def)
    show ?thesis
      unfolding True using mul by (subst read_rows.simps) (simp add: fread_def)
  next
    case False
    have more: "Suc i < M" using Suc.hyps(2) by simp
    from read_rows_step [OF N big Suc.prems(1,2,3) False, of F r] more
    obtain row' a1 where st: "length row' = channels * N" "length a1 = length a"
      "read_rows F r (int M) (int (channels * N)) (int ((N - 7) * channels)) (int i)
         a input_row stream =
       read_rows F r (int M) (int (channels * N)) (int ((N - 7) * channels))
         (int (Suc i)) a1 row' (drop (channels * N) stream)" by auto
    have "M - 1 - i = Suc (M - 1 - Suc i)" using more by simp
    then have "(M - 1 - i) * ?d = (M - 1 - Suc i) * ?d + ?d"
      by (simp only: mult_Suc add.commute)
    then have rest: "length (drop ?d stream) \<le> (M - 1 - Suc i) * ?d"
      using Suc.prems(4) by simp
    have "read_rows F r (int M) (int ?d) (int ((N - 7) * channels)) (int (Suc i))
            a1 row' (drop ?d stream) = Some (Inl ReadFailure)"
      using Suc.hyps(2) Suc.prems(3) st(2) more
      by (intro Suc.hyps(1) st(1) rest) auto
    then show ?thesis using st(3) by simp
  qed
qed

text \<open>
  \<^verbatim>\<open>scale_up\<close> up to the end of the solver: the read fails exactly when the stream ends
  at or before the start of the last row.
\<close>

lemma scale_up_solved:
  assumes n15: "15 \<le> n" and m15: "15 \<le> m"
    and b_nn: "0 \<le> nn" "3 * nn \<le> INT_MAX" and b_a: "m * (3 * n) \<le> INT_MAX"
  shows "scale_up F x junk_f junk_p junk_i inputfile m n mm nn maxval =
           (if int (length inputfile) \<le> (m - 1) * (3 * n) then Some (1, [])
            else
           (case last_overlapping_index n nn (replicate (nat (n - 1)) junk_i) of
              None \<Rightarrow> None | Some last_overlapping_jj \<Rightarrow>
           (case last_overlapping_index m mm (replicate (nat (m - 1)) junk_i) of
              None \<Rightarrow> None | Some last_overlapping_ii \<Rightarrow>
           (case synthesize ROUND_AND_CLAMP_TO_065535 byte_swap x last_overlapping_jj
                   last_overlapping_ii m n mm nn (replicate (nat (3 * nn)) junk_p) of
              None \<Rightarrow> None
            | Some written \<Rightarrow> Some (0, written)))))"
proof -
  define N where "N = nat n"
  define M where "M = nat m"
  define d where "d = channels * N"
  have nN: "n = int N" and mM: "m = int M" using n15 m15 by (simp_all add: N_def M_def)
  have N: "7 \<le> N" "15 \<le> N" and M: "7 \<le> M" "15 \<le> M"
    using n15 m15 by (simp_all add: N_def M_def)
  have ch: "int channels = 3" by (simp add: channels_def)
  have dn: "int d = 3 * n" by (simp add: d_def nN channels_def)
  have dpos: "0 < d" using N by (simp add: d_def channels_def)
  have Md: "int (M * d) = m * (3 * n)" by (simp add: mM dn)
  have r3: "0 \<le> 3 * n" using n15 by simp
  have n_le: "3 * n \<le> m * (3 * n)"
    using mult_right_mono [of 1 m "3 * n"] m15 r3 by simp
  have n2_le: "3 * n + 3 * n \<le> m * (3 * n)"
    using mult_right_mono [of 2 m "3 * n"] m15 r3 by simp
  have m_le: "m \<le> m * (3 * n)"
    using le_mult_pos [of m "3 * n"] m15 n15 by simp
  have lo_b: "INT_MIN \<le> 0" by (rule INT_MIN_neg)
  have e1: "int_mul (int channels) n = Some (int d)"
    using n_le b_a r3 lo_b by (simp add: int_mul_def ch dn)
  have e2: "int_mul (int channels) nn = Some (3 * nn)"
    using b_nn lo_b by (simp add: int_mul_def ch)
  have e3: "int_add (int d) (int d) = Some (int (2 * d))"
    using n2_le b_a r3 lo_b by (simp add: int_add_def dn)
  have n_b: "n \<le> INT_MAX" "INT_MIN \<le> n - 7" using n15 n_le b_a lo_b by linarith+
  have "n - 7 = int (N - 7)" using N by (simp add: nN of_nat_diff)
  then have e4: "int_add n (- 7) = Some (int (N - 7))"
    using n_b by (simp add: int_add_def)
  have "int ((N - 7) * channels) \<le> 3 * n" using N by (simp add: nN channels_def)
  then have "int ((N - 7) * channels) \<le> INT_MAX" "INT_MIN \<le> int ((N - 7) * channels)"
    using n_le b_a lo_b by linarith+
  then have e5: "int_mul (int (N - 7)) (int channels) = Some (int ((N - 7) * channels))"
    by (simp add: int_mul_def)
  have "INT_MIN \<le> m * (3 * n)" "m * int d = int (M * d)"
    using n_le r3 lo_b by (simp_all add: dn mM)
  then have e6: "int_mul m (int d) = Some (int (M * d))"
    using b_a unfolding int_mul_def dn by (simp only: if_True simp_thms)
  have big: "int (M * (channels * N)) \<le> INT_MAX" using b_a Md by (simp add: d_def)
  have M1: "int ((M - 1) * d) = (m - 1) * (3 * n)" using M by (simp add: mM dn of_nat_diff)
  define r where "r = (of_int_f F mm * of_int_f F nn) / (of_int_f F m * of_int_f F n)"
  have lens: "0 < M" "length (replicate d junk_p) = channels * N"
    "M * (channels * N) \<le> length (replicate (M * d) junk_f)"
    using M by (simp_all add: d_def)
  show ?thesis
  proof (cases "int (length inputfile) \<le> (m - 1) * (3 * n)")
    case True
    then have "int (length inputfile) \<le> int ((M - 1) * d)" using M1 by (simp only:)
    then have "length inputfile \<le> (M - 1) * d" by (simp only: of_nat_le_iff)
    then have short: "length inputfile \<le> (M - 1 - 0) * (channels * N)"
      unfolding d_def by (simp only: diff_zero)
    have "read_rows F r (int M) (int (channels * N)) (int ((N - 7) * channels)) (int 0)
           (replicate (M * d) junk_f) (replicate d junk_p) inputfile = Some (Inl ReadFailure)"
      by (rule read_rows_fail [OF N(1) big lens short])
    then have e7: "read_rows F ((of_int_f F mm * of_int_f F nn) / (of_int_f F m * of_int_f F n))
           m (int d) (int ((N - 7) * channels)) 0
           (replicate (nat (int (M * d))) junk_f) (replicate (nat (int d)) junk_p) inputfile =
           Some (Inl ReadFailure)"
      unfolding r_def d_def by (simp only: nat_int mM int_ops(1))
    show ?thesis
      unfolding scale_up_def
      by (simp only: e1 e2 e3 e4 e5 e6 e7 True if_True option.case sum.case error.case)
  next
    case False
    then have "int ((M - 1) * d) < int (length inputfile)" using M1 by simp
    then have "(M - 1) * d < length inputfile" by (simp only: of_nat_less_iff)
    then have rdn: "(M - 1 - 0) * (channels * N) < length inputfile"
      unfolding d_def by (simp only: diff_zero)
    have "\<exists>a'. read_rows F r (int M) (int (channels * N)) (int ((N - 7) * channels)) (int 0)
           (replicate (M * d) junk_f) (replicate d junk_p) inputfile = Some (Inr a') \<and>
           length a' = length (replicate (M * d) junk_f)"
      by (rule read_rows_ok [OF N(1) big lens rdn])
    then obtain a where a: "read_rows F r (int M) (int (channels * N)) (int ((N - 7) * channels))
           (int 0) (replicate (M * d) junk_f) (replicate d junk_p) inputfile = Some (Inr a)"
      "length a = length (replicate (M * d) junk_f)"
      by blast
    have la: "length a = M * d" using a(2) by simp
    have e7: "read_rows F ((of_int_f F mm * of_int_f F nn) / (of_int_f F m * of_int_f F n))
           m (int d) (int ((N - 7) * channels)) 0
           (replicate (nat (int (M * d))) junk_f) (replicate (nat (int d)) junk_p) inputfile =
           Some (Inr a)"
      using a(1) unfolding r_def d_def by (simp only: nat_int mM int_ops(1))
    have db: "int d \<le> INT_MAX" using n_le b_a dn by simp
    have Mb: "int M \<le> INT_MAX" using m_le b_a mM by simp
    have "\<exists>sf sb. column_forward_substitution F (int M) (int d) a = Some sf \<and>
           column_back_substitution F (int d) (int (2 * d)) sf = Some sb"
      using la by (intro column_passes_ok [OF M(1) _ dpos db Mb]) simp
    then obtain sf sb where e8: "column_forward_substitution F m (int d) a = Some sf"
      and e9: "column_back_substitution F (int d) (int (2 * d)) sf = Some sb"
      unfolding mM by blast
    show ?thesis
      unfolding scale_up_def
      by (simp only: e1 e2 e3 e4 e5 e6 e7 e8 e9 False if_False option.case sum.case error.case)
  qed
qed

lemma scale_up_result:
  assumes n15: "15 \<le> n" and m15: "15 \<le> m" and nnn: "n \<le> nn" and mmm: "m \<le> mm"
    and b_nn: "3 * nn \<le> INT_MAX" and b_mm: "mm \<le> INT_MAX" and b_a: "m * (3 * n) \<le> INT_MAX"
    and b_j: "n < nn \<longrightarrow> n * nn \<le> INT_MAX" and b_i: "m < mm \<longrightarrow> m * mm \<le> INT_MAX"
    and rd: "(m - 1) * (3 * n) < int (length inputfile)"
    and rc: "\<And>ii jj c. ii < nat mm \<Longrightarrow> jj < nat nn \<Longrightarrow> c < channels \<Longrightarrow>
               ROUND_AND_CLAMP_TO_065535 (x (int ii) (int jj) c) = Some (V (int ii) (int jj) c)"
  shows "scale_up F x junk_f junk_p junk_i inputfile m n mm nn maxval =
           Some (0, image_of byte_swap V (nat mm) (nat nn))"
proof -
  have n2: "2 \<le> n" "2 \<le> m" "4 \<le> n" "4 \<le> m" using n15 m15 by auto
  have nn0: "0 \<le> nn" using nnn n15 by simp
  have nn_b: "nn \<le> INT_MAX" using b_nn nnn n15 by linarith
  have "\<exists>lo. last_overlapping_index n nn (replicate (nat (n - 1)) junk_i) = Some lo \<and>
          good_map lo n nn"
    by (intro loi_good [OF n2(1) nnn nn_b b_j]) simp
  then obtain lojj where e10: "last_overlapping_index n nn (replicate (nat (n - 1)) junk_i) =
      Some lojj" and gj: "good_map lojj n nn" by blast
  have "\<exists>lo. last_overlapping_index m mm (replicate (nat (m - 1)) junk_i) = Some lo \<and>
          good_map lo m mm"
    by (intro loi_good [OF n2(2) mmm b_mm b_i]) simp
  then obtain loii where e11: "last_overlapping_index m mm (replicate (nat (m - 1)) junk_i) =
      Some loii" and gi: "good_map loii m mm" by blast
  have nb: "n \<le> INT_MAX" "m \<le> INT_MAX" using nnn nn_b mmm b_mm by linarith+
  have len: "length (replicate (nat (3 * nn)) junk_p) = channels * nat nn"
    using nnn n15 by (simp add: channels_def nat_mult_distrib)
  have e12: "synthesize ROUND_AND_CLAMP_TO_065535 byte_swap x lojj loii m n mm nn
               (replicate (nat (3 * nn)) junk_p) =
             Some (image_of byte_swap V (nat mm) (nat nn))"
    unfolding image_of_def
    by (intro synthesize_fill [OF gj n2(3) nn_b nb(1) gi n2(4) b_mm nb(2) len] rc)
  have nf: "\<not> int (length inputfile) \<le> (m - 1) * (3 * n)" using rd by simp
  show ?thesis
    unfolding scale_up_solved [OF n15 m15 nn0 b_nn b_a]
    by (simp only: nf if_False e10 e11 e12 option.case)
qed

lemma scale_up_SomeD:
  assumes "scale_up F x junk_f junk_p junk_i inputfile m n mm nn maxval = Some (r, written)"
  shows "written = [] \<or>
         (\<exists>nntc lojj loii. int_mul (int channels) nn = Some nntc \<and>
            last_overlapping_index n nn (replicate (nat (n - 1)) junk_i) = Some lojj \<and>
            last_overlapping_index m mm (replicate (nat (m - 1)) junk_i) = Some loii \<and>
            synthesize ROUND_AND_CLAMP_TO_065535 byte_swap x lojj loii m n mm nn
              (replicate (nat nntc) junk_p) = Some written)"
  using assms unfolding scale_up_def
  by (auto split: option.splits sum.splits error.splits)

subsection \<open>The samples written\<close>

lemma scale_up_samples:
  assumes n15: "15 \<le> n" and m15: "15 \<le> m" and nnn: "n \<le> nn" and mmm: "m \<le> mm"
    and b_mm: "mm \<le> INT_MAX"
    and run: "scale_up F x junk_f junk_p junk_i inputfile m n mm nn maxval = Some (r, written)"
    and ii: "ii < length written" and jj: "jj < nat nn" and c: "c < channels"
  shows "\<exists>v. ROUND_AND_CLAMP_TO_065535 (x (int ii) (int jj) c) = Some v \<and>
           written ! ii ! (channels * jj + c) = byte_swap v"
proof -
  from ii have "written \<noteq> []" by auto
  with scale_up_SomeD [OF run]
  obtain nntc lojj loii where u: "int_mul (int channels) nn = Some nntc"
    "last_overlapping_index n nn (replicate (nat (n - 1)) junk_i) = Some lojj"
    "last_overlapping_index m mm (replicate (nat (m - 1)) junk_i) = Some loii"
    "synthesize ROUND_AND_CLAMP_TO_065535 byte_swap x lojj loii m n mm nn
       (replicate (nat nntc) junk_p) = Some written" by blast
  have nntc: "nntc = 3 * nn" "3 * nn \<le> INT_MAX"
    using u(1) by (simp_all add: int_mul_def channels_def split: if_splits)
  have nn_b: "nn \<le> INT_MAX" using nntc(2) nnn n15 by linarith
  have nb: "n \<le> INT_MAX" "m \<le> INT_MAX" using nnn nn_b mmm b_mm by linarith+
  have n2: "2 \<le> n" "2 \<le> m" "4 \<le> n" "4 \<le> m" using n15 m15 by auto
  have gj: "good_map lojj n nn"
    by (rule loi_Some_good [OF n2(1) nnn nn_b _ u(2)]) simp
  have gi: "good_map loii m mm"
    by (rule loi_Some_good [OF n2(2) mmm b_mm _ u(3)]) simp
  have len: "length (replicate (nat nntc) junk_p) = channels * nat nn"
    using nnn n15 by (simp add: nntc(1) channels_def nat_mult_distrib)
  from synthesize_sound [OF gj n2(3) nn_b nb(1) gi n2(4) b_mm nb(2) len byte_swap_0_1 u(4)]
  show ?thesis using ii jj c by simp
qed

lemma synthesize_8_samples:
  assumes n15: "15 \<le> n" and m15: "15 \<le> m" and nnn: "n \<le> nn" and mmm: "m \<le> mm"
    and b_nn: "nn \<le> INT_MAX" and b_mm: "mm \<le> INT_MAX"
    and la: "length arr_jj = nat (n - 1)" "length arr_ii = nat (m - 1)"
    and lo: "last_overlapping_index n nn arr_jj = Some lojj"
      "last_overlapping_index m mm arr_ii = Some loii"
    and len: "length output_row = channels * nat nn"
    and run: "synthesize_8 x lojj loii m n mm nn output_row = Some written"
    and ii: "ii < length written" and jj: "jj < nat nn" and c: "c < channels"
  shows "\<exists>v. ROUND_AND_CLAMP_TO_065535_8 (x (int ii) (int jj) c) = Some v \<and>
           written ! ii ! (channels * jj + c) = v"
proof -
  have nb: "n \<le> INT_MAX" "m \<le> INT_MAX" using nnn b_nn mmm b_mm by linarith+
  have n2: "2 \<le> n" "2 \<le> m" "4 \<le> n" "4 \<le> m" using n15 m15 by auto
  have gj: "good_map lojj n nn"
    by (rule loi_Some_good [OF n2(1) nnn b_nn la(1) lo(1)])
  have gi: "good_map loii m mm"
    by (rule loi_Some_good [OF n2(2) mmm b_mm la(2) lo(2)])
  have ab: "(\<lambda>v. v) (0::uchar) \<noteq> (\<lambda>v. v) 1" by simp
  from synthesize_sound [OF gj n2(3) b_nn nb(1) gi n2(4) b_mm nb(2) len ab
      run [unfolded synthesize_8_def]]
  show ?thesis using ii jj c by simp
qed

text \<open>
  Claim C3. Every output sample is computed from the tensor contraction value by adding 0.5,
  truncating to an integer and clamping to \<open>[0, maxval]\<close>; so every emitted sample lies in
  \<open>[0, maxval]\<close>, whatever the input image. For \<^verbatim>\<open>eanbqh.c\<close>: whenever \<^verbatim>\<open>main\<close>
  accepts the header and \<^verbatim>\<open>scale_up\<close> returns, every sample of every row it wrote, for fine
  row \<open>ii\<close>, fine column \<open>jj\<close> and channel \<open>c\<close>, read back from the big-endian row in the
  file, is \<open>spec_round_and_clamp maxval\<close> of the contraction value \<open>x ii jj c\<close>. For
  \<^verbatim>\<open>eanbqh8.c\<close>: the same for every row that its synthesis writes, with the overlap maps
  that \<^verbatim>\<open>last_overlapping_index\<close> returned. The image sizes are C \<^verbatim>\<open>int\<close>s with
  \<open>n \<le> nn\<close> and \<open>m \<le> mm\<close>.
\<close>

theorem emitted_samples_rounded_and_clamped:
  assumes "n \<le> nn" and "m \<le> mm" and "nn \<le> INT_MAX" and "mm \<le> INT_MAX"
  shows "(main_accepts n m maxval \<longrightarrow>
          scale_up F x junk_f junk_p junk_i inputfile m n mm nn maxval = Some (r, written) \<longrightarrow>
          (\<forall>ii<length written. \<forall>jj<nat nn. \<forall>c<channels.
             uint (byte_swap (written ! ii ! (channels * jj + c))) =
               spec_round_and_clamp maxval (x (int ii) (int jj) c) \<and>
             0 \<le> uint (byte_swap (written ! ii ! (channels * jj + c))) \<and>
             uint (byte_swap (written ! ii ! (channels * jj + c))) \<le> maxval)) \<and>
         (main_accepts_8 n m maxval \<longrightarrow>
          length arr_jj = nat (n - 1) \<longrightarrow> length arr_ii = nat (m - 1) \<longrightarrow>
          last_overlapping_index n nn arr_jj = Some last_overlapping_jj \<longrightarrow>
          last_overlapping_index m mm arr_ii = Some last_overlapping_ii \<longrightarrow>
          length output_row = channels * nat nn \<longrightarrow>
          synthesize_8 x last_overlapping_jj last_overlapping_ii m n mm nn output_row =
            Some written_bytes \<longrightarrow>
          (\<forall>ii<length written_bytes. \<forall>jj<nat nn. \<forall>c<channels.
             uint (written_bytes ! ii ! (channels * jj + c)) =
               spec_round_and_clamp maxval (x (int ii) (int jj) c) \<and>
             0 \<le> uint (written_bytes ! ii ! (channels * jj + c)) \<and>
             uint (written_bytes ! ii ! (channels * jj + c)) \<le> maxval))"
proof (intro conjI impI allI)
  fix ii jj c
  assume acc: "main_accepts n m maxval"
    and run: "scale_up F x junk_f junk_p junk_i inputfile m n mm nn maxval = Some (r, written)"
    and i: "ii < length written" "jj < nat nn" "c < channels"
  from acc have d: "15 \<le> n" "15 \<le> m" "maxval = 65535" by (auto simp: main_accepts_def)
  from scale_up_samples [OF d(1,2) assms(1,2,4) run i]
  obtain v where v: "ROUND_AND_CLAMP_TO_065535 (x (int ii) (int jj) c) = Some v"
    "written ! ii ! (channels * jj + c) = byte_swap v" by blast
  have e: "uint (byte_swap (written ! ii ! (channels * jj + c))) =
      spec_round_and_clamp maxval (x (int ii) (int jj) c)"
    unfolding v(2) byte_swap_involution d(3) by (rule round_and_clamp_value [OF v(1)])
  show "uint (byte_swap (written ! ii ! (channels * jj + c))) =
      spec_round_and_clamp maxval (x (int ii) (int jj) c)" by (rule e)
  show "0 \<le> uint (byte_swap (written ! ii ! (channels * jj + c)))" by simp
  show "uint (byte_swap (written ! ii ! (channels * jj + c))) \<le> maxval"
    unfolding e using spec_round_and_clamp_range [of maxval] d(3) by simp
next
  fix ii jj c
  assume acc: "main_accepts_8 n m maxval"
    and la: "length arr_jj = nat (n - 1)" "length arr_ii = nat (m - 1)"
    and lo: "last_overlapping_index n nn arr_jj = Some last_overlapping_jj"
      "last_overlapping_index m mm arr_ii = Some last_overlapping_ii"
    and len: "length output_row = channels * nat nn"
    and run: "synthesize_8 x last_overlapping_jj last_overlapping_ii m n mm nn output_row =
            Some written_bytes"
    and i: "ii < length written_bytes" "jj < nat nn" "c < channels"
  from acc have d: "15 \<le> n" "15 \<le> m" "maxval = 255" by (auto simp: main_accepts_8_def)
  from synthesize_8_samples [OF d(1,2) assms la lo len run i]
  obtain v where v: "ROUND_AND_CLAMP_TO_065535_8 (x (int ii) (int jj) c) = Some v"
    "written_bytes ! ii ! (channels * jj + c) = v" by blast
  have e: "uint (written_bytes ! ii ! (channels * jj + c)) =
      spec_round_and_clamp maxval (x (int ii) (int jj) c)"
    unfolding v(2) d(3) by (rule round_and_clamp_8_value [OF v(1)])
  show "uint (written_bytes ! ii ! (channels * jj + c)) =
      spec_round_and_clamp maxval (x (int ii) (int jj) c)" by (rule e)
  show "0 \<le> uint (written_bytes ! ii ! (channels * jj + c))" by simp
  show "uint (written_bytes ! ii ! (channels * jj + c)) \<le> maxval"
    unfolding e using spec_round_and_clamp_range [of maxval] d(3) by simp
qed

lemma example_x_range:
  assumes "ii < 100" "c < channels"
  shows "real_of_int (INT_MIN - 1) < example_x (int ii) jj c + 1 / 2"
    and "example_x (int ii) jj c + 1 / 2 < real_of_int (INT_MAX + 1)"
    and "real_of_int (INT_MIN - 1) < example_x_8 (int ii) jj c + 1 / 2"
    and "example_x_8 (int ii) jj c + 1 / 2 < real_of_int (INT_MAX + 1)"
proof -
  have "real ii < 100" "0 \<le> real ii" "real c < 3" "0 \<le> real c"
    using assms by (simp_all add: channels_def)
  then show "real_of_int (INT_MIN - 1) < example_x (int ii) jj c + 1 / 2"
    and "example_x (int ii) jj c + 1 / 2 < real_of_int (INT_MAX + 1)"
    and "real_of_int (INT_MIN - 1) < example_x_8 (int ii) jj c + 1 / 2"
    and "example_x_8 (int ii) jj c + 1 / 2 < real_of_int (INT_MAX + 1)"
    by (simp_all add: example_x_def example_x_8_def INT_MIN_def INT_MAX_def)
qed

lemma example_x_defined:
  assumes "ii < 100" "c < channels"
  shows "ROUND_AND_CLAMP_TO_065535 (example_x (int ii) jj c) =
           Some (the (ROUND_AND_CLAMP_TO_065535 (example_x (int ii) jj c)))"
    and "ROUND_AND_CLAMP_TO_065535_8 (example_x_8 (int ii) jj c) =
           Some (the (ROUND_AND_CLAMP_TO_065535_8 (example_x_8 (int ii) jj c)))"
  using round_and_clamp_defined(1) [OF example_x_range(1,2) [OF assms]]
    round_and_clamp_defined(2) [OF example_x_range(3,4) [OF assms]]
  by auto

lemma scale_up_total:
  assumes n15: "15 \<le> n" and m15: "15 \<le> m" and nnn: "n \<le> nn" and mmm: "m \<le> mm"
    and b_nn: "3 * nn \<le> INT_MAX" and b_mm: "mm \<le> INT_MAX" and b_a: "m * (3 * n) \<le> INT_MAX"
    and b_j: "n < nn \<longrightarrow> n * nn \<le> INT_MAX" and b_i: "m < mm \<longrightarrow> m * mm \<le> INT_MAX"
    and rd: "(m - 1) * (3 * n) < int (length inputfile)"
    and conv: "\<And>ii jj c. ii < nat mm \<Longrightarrow> jj < nat nn \<Longrightarrow> c < channels \<Longrightarrow>
               \<exists>v. ROUND_AND_CLAMP_TO_065535 (x (int ii) (int jj) c) = Some v"
  shows "\<exists>written. scale_up F x junk_f junk_p junk_i inputfile m n mm nn maxval =
           Some (0, written) \<and> length written = nat mm \<and>
           (\<forall>ii<nat mm. length (written ! ii) = channels * nat nn \<and>
              (\<forall>jj<nat nn. \<forall>c<channels.
                 ROUND_AND_CLAMP_TO_065535 (x (int ii) (int jj) c) =
                   Some (byte_swap (written ! ii ! (channels * jj + c)))))"
proof -
  define V where "V ii jj c = the (ROUND_AND_CLAMP_TO_065535 (x ii jj c))" for ii jj c
  have rc: "ROUND_AND_CLAMP_TO_065535 (x (int ii) (int jj) c) = Some (V (int ii) (int jj) c)"
    if "ii < nat mm" "jj < nat nn" "c < channels" for ii jj c
    unfolding V_def using conv [OF that] by auto
  let ?W = "image_of byte_swap V (nat mm) (nat nn)"
  have run: "scale_up F x junk_f junk_p junk_i inputfile m n mm nn maxval = Some (0, ?W)"
  proof (rule scale_up_result [where V = V])
    show "ROUND_AND_CLAMP_TO_065535 (x (int ii) (int jj) c) = Some (V (int ii) (int jj) c)"
      if "ii < nat mm" "jj < nat nn" "c < channels" for ii jj c
      using that by (rule rc)
  qed (use assms in simp_all)
  have "ROUND_AND_CLAMP_TO_065535 (x (int ii) (int jj) c) =
          Some (byte_swap (?W ! ii ! (channels * jj + c)))"
    if "ii < nat mm" "jj < nat nn" "c < channels" for ii jj c
    using rc [OF that] image_of_nth [OF that, where swap = byte_swap and V = V]
    by (simp add: byte_swap_involution)
  then show ?thesis
    using run image_of_length [where swap = byte_swap and V = V and mm = "nat mm" and nn = "nat nn"]
    by auto
qed

lemma synthesize_8_total:
  assumes n15: "15 \<le> n" and m15: "15 \<le> m" and nnn: "n \<le> nn" and mmm: "m \<le> mm"
    and b_nn: "nn \<le> INT_MAX" and b_mm: "mm \<le> INT_MAX"
    and b_j: "n < nn \<longrightarrow> n * nn \<le> INT_MAX" and b_i: "m < mm \<longrightarrow> m * mm \<le> INT_MAX"
    and la: "length arr_jj = nat (n - 1)" "length arr_ii = nat (m - 1)"
    and len: "length output_row = channels * nat nn"
    and conv: "\<And>ii jj c. ii < nat mm \<Longrightarrow> jj < nat nn \<Longrightarrow> c < channels \<Longrightarrow>
               \<exists>v. ROUND_AND_CLAMP_TO_065535_8 (x (int ii) (int jj) c) = Some v"
  shows "\<exists>lojj loii written. last_overlapping_index n nn arr_jj = Some lojj \<and>
           last_overlapping_index m mm arr_ii = Some loii \<and>
           synthesize_8 x lojj loii m n mm nn output_row = Some written \<and>
           length written = nat mm"
proof -
  define V where "V ii jj c = the (ROUND_AND_CLAMP_TO_065535_8 (x ii jj c))" for ii jj c
  have rc: "ROUND_AND_CLAMP_TO_065535_8 (x (int ii) (int jj) c) = Some (V (int ii) (int jj) c)"
    if "ii < nat mm" "jj < nat nn" "c < channels" for ii jj c
    unfolding V_def using conv [OF that] by auto
  have n2: "2 \<le> n" "2 \<le> m" "4 \<le> n" "4 \<le> m" using n15 m15 by auto
  have nb: "n \<le> INT_MAX" "m \<le> INT_MAX" using nnn b_nn mmm b_mm by linarith+
  from loi_good [OF n2(1) nnn b_nn b_j la(1)]
  obtain lojj where j: "last_overlapping_index n nn arr_jj = Some lojj" "good_map lojj n nn"
    by blast
  from loi_good [OF n2(2) mmm b_mm b_i la(2)]
  obtain loii where i: "last_overlapping_index m mm arr_ii = Some loii" "good_map loii m mm"
    by blast
  have "synthesize ROUND_AND_CLAMP_TO_065535_8 (\<lambda>v. v) x lojj loii m n mm nn output_row =
      Some (map (\<lambda>i. map (\<lambda>v. v) (row_of (V (int i)) (nat nn))) [0..<nat mm])"
    by (intro synthesize_fill [OF j(2) n2(3) b_nn nb(1) i(2) n2(4) b_mm nb(2) len] rc)
  then show ?thesis using j(1) i(1) by (simp add: synthesize_8_def)
qed

text \<open>
  A 15 by 15 image in the 16-bit program, and 15 by 15 upsized to 18 columns by 20 rows in
  the 8-bit synthesis: samples clamped to 0, rounded down, rounded up, and clamped to
  \<open>maxval\<close>.
\<close>

theorem emitted_samples_rounded_and_clamped_witness:
  "\<exists>written lojj loii written_bytes.
     scale_up example_ops example_x 0 0 0 (replicate 675 0) 15 15 15 15 65535 =
       Some (0, written) \<and> length written = 15 \<and>
     uint (byte_swap (written ! 0 ! (channels * 3 + 2))) = 0 \<and>
     uint (byte_swap (written ! 5 ! (channels * 3 + 1))) = 15000 \<and>
     uint (byte_swap (written ! 5 ! (channels * 3 + 2))) = 15001 \<and>
     uint (byte_swap (written ! 14 ! (channels * 3 + 2))) = 65535 \<and>
     last_overlapping_index 15 18 (replicate 14 0) = Some lojj \<and>
     last_overlapping_index 15 20 (replicate 14 0) = Some loii \<and>
     synthesize_8 example_x_8 lojj loii 15 15 20 18 (replicate 54 0) = Some written_bytes \<and>
     length written_bytes = 20 \<and>
     uint (written_bytes ! 0 ! (channels * 3 + 2)) = 0 \<and>
     uint (written_bytes ! 5 ! (channels * 3 + 1)) = 95 \<and>
     uint (written_bytes ! 5 ! (channels * 3 + 2)) = 96 \<and>
     uint (written_bytes ! 19 ! (channels * 3 + 2)) = 255"
proof -
  have "\<exists>written. scale_up example_ops example_x 0 0 0 (replicate 675 0) 15 15 15 15 65535 =
           Some (0, written) \<and> length written = nat 15 \<and>
           (\<forall>ii<nat 15. length (written ! ii) = channels * nat 15 \<and>
              (\<forall>jj<nat 15. \<forall>c<channels.
                 ROUND_AND_CLAMP_TO_065535 (example_x (int ii) (int jj) c) =
                   Some (byte_swap (written ! ii ! (channels * jj + c)))))"
  proof (rule scale_up_total)
    show "\<exists>v. ROUND_AND_CLAMP_TO_065535 (example_x (int ii) (int jj) c) = Some v"
      if "ii < nat 15" "jj < nat 15" "c < channels" for ii jj c
      using example_x_defined(1) [of ii c] that by auto
  qed (simp_all add: INT_MAX_def)
  then obtain written where w:
    "scale_up example_ops example_x 0 0 0 (replicate 675 0) 15 15 15 15 65535 = Some (0, written)"
    "length written = 15" by auto
  have acc: "main_accepts 15 15 65535" by (simp add: main_accepts_def)
  have s16: "uint (byte_swap (written ! ii ! (channels * jj + c))) =
      spec_round_and_clamp 65535 (example_x (int ii) (int jj) c)"
    if "ii < 15" "jj < 15" "c < 3" for ii jj c
    using emitted_samples_rounded_and_clamped [where n = 15 and nn = 15 and m = 15 and mm = 15
        and maxval = 65535 and F = example_ops and x = example_x and r = 0 and written = written
        and junk_f = 0 and junk_p = 0 and junk_i = 0 and inputfile = "replicate 675 0",
        THEN conjunct1] acc w that
    by (simp add: INT_MAX_def channels_def)
  have "\<exists>lojj loii written. last_overlapping_index 15 18 (replicate 14 0) = Some lojj \<and>
           last_overlapping_index 15 20 (replicate 14 0) = Some loii \<and>
           synthesize_8 example_x_8 lojj loii 15 15 20 18 (replicate 54 0) = Some written \<and>
           length written = nat 20"
  proof (rule synthesize_8_total)
    show "\<exists>v. ROUND_AND_CLAMP_TO_065535_8 (example_x_8 (int ii) (int jj) c) = Some v"
      if "ii < nat 20" "jj < nat 18" "c < channels" for ii jj c
      using example_x_defined(2) [of ii c] that by auto
  qed (simp_all add: INT_MAX_def channels_def)
  then obtain lojj loii written_bytes where w8:
    "last_overlapping_index 15 18 (replicate 14 0) = Some lojj"
    "last_overlapping_index 15 20 (replicate 14 0) = Some loii"
    "synthesize_8 example_x_8 lojj loii 15 15 20 18 (replicate 54 0) = Some written_bytes"
    "length written_bytes = 20" by auto
  have acc8: "main_accepts_8 15 15 255" by (simp add: main_accepts_8_def)
  have s8: "uint (written_bytes ! ii ! (channels * jj + c)) =
      spec_round_and_clamp 255 (example_x_8 (int ii) (int jj) c)"
    if "ii < 20" "jj < 18" "c < 3" for ii jj c
    using emitted_samples_rounded_and_clamped [where n = 15 and nn = 18 and m = 15 and mm = 20
        and maxval = 255 and x = example_x_8 and written_bytes = written_bytes
        and arr_jj = "replicate 14 0" and arr_ii = "replicate 14 0"
        and last_overlapping_jj = lojj and last_overlapping_ii = loii
        and output_row = "replicate 54 0", THEN conjunct2] acc8 w8 that
    by (simp add: INT_MAX_def channels_def)
  have "uint (byte_swap (written ! 0 ! (channels * 3 + 2))) = 0"
    "uint (byte_swap (written ! 5 ! (channels * 3 + 1))) = 15000"
    "uint (byte_swap (written ! 5 ! (channels * 3 + 2))) = 15001"
    "uint (byte_swap (written ! 14 ! (channels * 3 + 2))) = 65535"
    using s16 [of 0 3 2] s16 [of 5 3 1] s16 [of 5 3 2] s16 [of 14 3 2]
    by (simp_all add: spec_round_and_clamp_def example_x_def Let_def)
  moreover have "uint (written_bytes ! 0 ! (channels * 3 + 2)) = 0"
    "uint (written_bytes ! 5 ! (channels * 3 + 1)) = 95"
    "uint (written_bytes ! 5 ! (channels * 3 + 2)) = 96"
    "uint (written_bytes ! 19 ! (channels * 3 + 2)) = 255"
    using s8 [of 0 3 2] s8 [of 5 3 1] s8 [of 5 3 2] s8 [of 19 3 2]
    by (simp_all add: spec_round_and_clamp_def example_x_8_def Let_def)
  ultimately show ?thesis using w w8 by blast
qed




text \<open>
  Claim C6 says that a truncated input makes \<^verbatim>\<open>scale_up\<close> return a nonzero read-failure
  result without writing any output row. The code tests \<^verbatim>\<open>!fread (...)\<close>, which is true
  only when no item at all was read. For a 15 by 15 image (675 samples): with 674 samples in
  the stream the last row is read short, \<^verbatim>\<open>scale_up\<close> returns 0 and writes all 15 rows;
  with 630 samples, the first 14 rows, it returns 1 and writes nothing.
\<close>

theorem scale_up_accepts_truncated_last_row:
  "(\<exists>written. scale_up example_ops example_x 0 0 0 (replicate 674 0) 15 15 15 15 65535 =
       Some (0, written) \<and> length written = 15) \<and>
   scale_up example_ops example_x 0 0 0 (replicate 630 0) 15 15 15 15 65535 = Some (1, [])"
proof
  have "\<exists>written. scale_up example_ops example_x 0 0 0 (replicate 674 0) 15 15 15 15 65535 =
           Some (0, written) \<and> length written = nat 15 \<and>
           (\<forall>ii<nat 15. length (written ! ii) = channels * nat 15 \<and>
              (\<forall>jj<nat 15. \<forall>c<channels.
                 ROUND_AND_CLAMP_TO_065535 (example_x (int ii) (int jj) c) =
                   Some (byte_swap (written ! ii ! (channels * jj + c)))))"
  proof (rule scale_up_total)
    show "\<exists>v. ROUND_AND_CLAMP_TO_065535 (example_x (int ii) (int jj) c) = Some v"
      if "ii < nat 15" "jj < nat 15" "c < channels" for ii jj c
      using example_x_defined(1) [of ii c] that by auto
  qed (simp_all add: INT_MAX_def)
  then show "\<exists>written. scale_up example_ops example_x 0 0 0 (replicate 674 0) 15 15 15 15 65535 =
       Some (0, written) \<and> length written = 15" by auto
  have "scale_up example_ops example_x 0 0 0 (replicate 630 0) 15 15 15 15 65535 =
      (if int (length (replicate 630 (0::pixval))) \<le> (15 - 1) * (3 * 15)
       then Some (1, [])
       else
         (case last_overlapping_index 15 15 (replicate (nat (15 - 1)) 0) of
            None \<Rightarrow> None | Some last_overlapping_jj \<Rightarrow>
         (case last_overlapping_index 15 15 (replicate (nat (15 - 1)) 0) of
            None \<Rightarrow> None | Some last_overlapping_ii \<Rightarrow>
         (case synthesize ROUND_AND_CLAMP_TO_065535 byte_swap example_x last_overlapping_jj
                 last_overlapping_ii 15 15 15 15 (replicate (nat (3 * 15)) 0) of
            None \<Rightarrow> None
          | Some written \<Rightarrow> Some (0, written)))))"
    by (rule scale_up_solved) (simp_all add: INT_MAX_def)
  moreover have "int (length (replicate 630 (0::pixval))) \<le> (15 - 1) * (3 * 15)" by simp
  ultimately show "scale_up example_ops example_x 0 0 0 (replicate 630 0) 15 15 15 15 65535 =
      Some (1, [])" by (simp only: if_True)
qed

end
